theory Spec2Isabelle
  imports Complex_Main "HOL-Library.Word"
begin

section \<open>Bloom filters of dynamic\_pybloom (pybloom.py)\<close>

text \<open>
  The module is embedded function by function. Python integers are \<open>int\<close> where the code
  compares them with zero (\<open>capacity\<close>, \<open>count\<close>) and \<open>nat\<close> where they count slices and
  bits; Python floats are idealised as \<open>real\<close> (comparisons of floats are exact, the
  logarithms are the mathematical ones); the bit vector of the \<open>bitarray\<close> library is a
  \<open>bool list\<close>, whose indexing raises \<open>IndexError\<close> out of range. Every \<open>raise\<close> of the
  source is a constructor of \<open>py_error\<close>, and a method that mutates \<open>self\<close> returns the
  object it leaves behind next to its result.
\<close>

subsection \<open>Errors\<close>

datatype py_error =
    ValueError_error_rate       \<comment> \<open>"Error\_Rate must be between 0 and 1."\<close>
  | ValueError_capacity         \<comment> \<open>"Capacity must be > 0"\<close>
  | IndexError_at_capacity      \<comment> \<open>"BloomFilter is at capacity"\<close>
  | IndexError_bitarray         \<comment> \<open>bitarray index out of range\<close>
  | ValueError_union            \<comment> \<open>"Unioning filters requires both filters to have ..."\<close>
  | ValueError_intersection     \<comment> \<open>"Intersecting filters requires both filters to ..."\<close>
  | ValueError_bitarray_length  \<comment> \<open>bitarray: operands of \<open>|\<close> and \<open>&\<close> differ in length\<close>
  | ValueError_n_too_small      \<comment> \<open>"n too small!"\<close>
  | ValueError_bit_length       \<comment> \<open>"Bit length mismatch!"\<close>
  | ValueError_sbf_error_rate   \<comment> \<open>"Error\_Rate must be a decimal less than 0."\<close>
  | ValueError_dbf_error_rate   \<comment> \<open>"error\_rate must be a decimal greater than 0."\<close>
  | ValueError_dbf_mismatch     \<comment> \<open>"Intersecting dynamic filters requires both filters to ..."\<close>
  | ValueError_math_domain      \<comment> \<open>math.log of a non-positive number\<close>
  | ZeroDivisionError
  | StructError                 \<comment> \<open>struct.error of pack and unpack\<close>

subsection \<open>The hash sequence generator: \<open>make_hashfuncs\<close>\<close>

type_synonym byte = "8 word"
type_synonym bytes = "byte list"

datatype hashfn = MD5 | SHA1 | SHA256 | SHA384 | SHA512

fun digest_size :: "hashfn \<Rightarrow> nat" where
  "digest_size MD5 = 16"
| "digest_size SHA1 = 20"
| "digest_size SHA256 = 32"
| "digest_size SHA384 = 48"
| "digest_size SHA512 = 64"

text \<open>
  The digests of \<open>hashlib\<close> are a parameter of the model. \<open>H hf i key j\<close> is byte \<open>j\<close> of the
  digest that the source computes for salt \<open>i\<close> and the (already encoded) key:
  \<open>salts[i].copy()\<close>, \<open>update(key)\<close>, \<open>digest()\<close>, where \<open>salts[i]\<close> is
  \<open>hashfn(hashfn(pack('I', i)).digest())\<close>. A digest has \<open>digest_size\<close> bytes, whatever
  their values.
\<close>

type_synonym hasher = "hashfn \<Rightarrow> nat \<Rightarrow> bytes \<Rightarrow> nat \<Rightarrow> byte"

definition digest :: "hasher \<Rightarrow> hashfn \<Rightarrow> nat \<Rightarrow> bytes \<Rightarrow> bytes" where
  "digest H hf i key = map (H hf i key) [0..<digest_size hf]"

text \<open>\<open>fmt_code, chunk_size\<close>: 'Q' is 8 bytes, 'I' is 4 and 'H' is 2.\<close>

definition chunk_size :: "nat \<Rightarrow> nat" where
  "chunk_size num_bits =
     (if num_bits \<ge> 2 ^ 31 then 8 else if num_bits \<ge> 2 ^ 15 then 4 else 2)"

definition total_hash_bits :: "nat \<Rightarrow> nat \<Rightarrow> nat" where
  "total_hash_bits num_slices num_bits = 8 * num_slices * chunk_size num_bits"

definition choose_hashfn :: "nat \<Rightarrow> nat \<Rightarrow> hashfn" where
  "choose_hashfn num_slices num_bits =
     (let t = total_hash_bits num_slices num_bits in
      if t > 384 then SHA512
      else if t > 256 then SHA384
      else if t > 160 then SHA256
      else if t > 128 then SHA1
      else MD5)"

text \<open>\<open>len(fmt)\<close>, where \<open>fmt = fmt_code * (hashfn().digest_size // chunk_size)\<close>.\<close>

definition fmt_len :: "nat \<Rightarrow> nat \<Rightarrow> nat" where
  "fmt_len num_slices num_bits =
     digest_size (choose_hashfn num_slices num_bits) div chunk_size num_bits"

text \<open>\<open>num_salts, extra = divmod(num_slices, len(fmt)); if extra: num_salts += 1\<close>.
  \<open>len(fmt)\<close> is at least 2, so the division is defined.\<close>

definition num_salts :: "nat \<Rightarrow> nat \<Rightarrow> nat" where
  "num_salts num_slices num_bits =
     (let n = fmt_len num_slices num_bits in
      if num_slices mod n \<noteq> 0 then num_slices div n + 1 else num_slices div n)"

text \<open>An unsigned integer of \<open>struct\<close> in the byte order of the machine, taken little-endian.\<close>

fun le_uint :: "bytes \<Rightarrow> nat" where
  "le_uint [] = 0"
| "le_uint (b # bs) = unat b + 256 * le_uint bs"

text \<open>\<open>unpack(fmt, data)\<close> for a format of \<open>n\<close> codes of \<open>c\<close> bytes each: \<open>struct.error\<close>
  unless the data has exactly \<open>n * c\<close> bytes.\<close>

definition unpack :: "nat \<Rightarrow> nat \<Rightarrow> bytes \<Rightarrow> py_error + nat list" where
  "unpack c n bs =
     (if length bs \<noteq> n * c then Inl StructError
      else Inr (map (\<lambda>j. le_uint (take c (drop (j * c) bs))) [0..<n]))"

text \<open>
  The inner loop of the generator, \<open>for uint in unpack(...)\<close> (the item is \<open>u\<close> here):
  the positions it yields, the counter \<open>i\<close> it leaves, and whether it executed \<open>return\<close>.
\<close>

fun yield_uints :: "nat \<Rightarrow> nat \<Rightarrow> nat \<Rightarrow> nat list \<Rightarrow> py_error + (nat list \<times> nat \<times> bool)" where
  "yield_uints num_slices num_bits i [] = Inr ([], i, False)"
| "yield_uints num_slices num_bits i (u # rest) =
     (if num_bits = 0 then Inl ZeroDivisionError
      else if i + 1 \<ge> num_slices then Inr ([u mod num_bits], i + 1, True)
      else (case yield_uints num_slices num_bits (i + 1) rest of
              Inl e \<Rightarrow> Inl e
            | Inr (ys, i', returned) \<Rightarrow> Inr (u mod num_bits # ys, i', returned)))"

text \<open>The outer loop, \<open>for salt in salts\<close>; a salt is named by its index.\<close>

fun salts_loop :: "hasher \<Rightarrow> nat \<Rightarrow> nat \<Rightarrow> bytes \<Rightarrow> nat \<Rightarrow> nat list \<Rightarrow> py_error + nat list" where
  "salts_loop H num_slices num_bits key i [] = Inr []"
| "salts_loop H num_slices num_bits key i (salt # salts) =
     (case unpack (chunk_size num_bits) (fmt_len num_slices num_bits)
             (digest H (choose_hashfn num_slices num_bits) salt key) of
        Inl e \<Rightarrow> Inl e
      | Inr uints \<Rightarrow>
          (case yield_uints num_slices num_bits i uints of
             Inl e \<Rightarrow> Inl e
           | Inr (ys, i', returned) \<Rightarrow>
               if returned then Inr ys
               else (case salts_loop H num_slices num_bits key i' salts of
                       Inl e \<Rightarrow> Inl e
                     | Inr zs \<Rightarrow> Inr (ys @ zs))))"

text \<open>
  \<open>make_hashfuncs(num_slices, num_bits)(key)\<close>: everything the generator yields, or the
  exception it raises. Both raise sites (\<open>unpack\<close> and \<open>uint % num_bits\<close>) are reached on
  the first item or never, since all digests of one hash function have one length.
\<close>

definition make_hashfuncs :: "hasher \<Rightarrow> nat \<Rightarrow> nat \<Rightarrow> bytes \<Rightarrow> py_error + nat list" where
  "make_hashfuncs H num_slices num_bits key =
     salts_loop H num_slices num_bits key 0 [0..<num_salts num_slices num_bits]"

subsection \<open>\<open>BloomFilter\<close>\<close>

record BloomFilter =
  error_rate :: real
  num_slices :: nat
  bits_per_slice :: nat
  capacity :: int
  count :: int
  num_bits :: nat
  bitarray :: "bool list"

text \<open>\<open>_setup\<close> followed by the assignment of the bit vector. The attribute
  \<open>make_hashes\<close> is always \<open>make_hashfuncs(num_slices, bits_per_slice)\<close>; the model
  computes it where it is called.\<close>

definition BloomFilter_setup :: "real \<Rightarrow> nat \<Rightarrow> nat \<Rightarrow> int \<Rightarrow> int \<Rightarrow> bool list \<Rightarrow> BloomFilter" where
  "BloomFilter_setup er ns bps cap cnt bits =
     \<lparr>error_rate = er, num_slices = ns, bits_per_slice = bps, capacity = cap,
      count = cnt, num_bits = ns * bps, bitarray = bits\<rparr>"

definition make_hashes :: "hasher \<Rightarrow> BloomFilter \<Rightarrow> bytes \<Rightarrow> py_error + nat list" where
  "make_hashes H f key = make_hashfuncs H (num_slices f) (bits_per_slice f) key"

text \<open>\<open>__init__\<close>: the two guards, then the parameter solver.\<close>

definition solve_num_slices :: "real \<Rightarrow> nat" where
  "solve_num_slices er = nat \<lceil>log 2 (1 / er)\<rceil>"

definition solve_bits_per_slice :: "int \<Rightarrow> real \<Rightarrow> nat" where
  "solve_bits_per_slice cap er =
     nat \<lceil>(of_int cap * \<bar>ln er\<bar>) / (of_nat (solve_num_slices er) * (ln 2)\<^sup>2)\<rceil>"

definition BloomFilter_init :: "int \<Rightarrow> real \<Rightarrow> py_error + BloomFilter" where
  "BloomFilter_init cap er =
     (if \<not> (0 < er \<and> er < 1) then Inl ValueError_error_rate
      else if \<not> cap > 0 then Inl ValueError_capacity
      else Inr (BloomFilter_setup er (solve_num_slices er) (solve_bits_per_slice cap er) cap 0
                  (replicate (solve_num_slices er * solve_bits_per_slice cap er) False)))"

text \<open>\<open>__contains__\<close>: the loop over the hashes, with its early \<open>return False\<close>.\<close>

fun contains_loop :: "bool list \<Rightarrow> nat \<Rightarrow> nat \<Rightarrow> nat list \<Rightarrow> py_error + bool" where
  "contains_loop bits bps offset [] = Inr True"
| "contains_loop bits bps offset (k # ks) =
     (if length bits \<le> offset + k then Inl IndexError_bitarray
      else if \<not> bits ! (offset + k) then Inr False
      else contains_loop bits bps (offset + bps) ks)"

definition contains :: "hasher \<Rightarrow> BloomFilter \<Rightarrow> bytes \<Rightarrow> py_error + bool" where
  "contains H f key =
     (case make_hashes H f key of
        Inl e \<Rightarrow> Inl e
      | Inr hashes \<Rightarrow> contains_loop (bitarray f) (bits_per_slice f) 0 hashes)"

text \<open>\<open>add\<close>: the loop sets the bits one by one, so an index error in the middle leaves
  the earlier bits set; it returns the exception if any, \<open>found_all_bits\<close> and the bits.\<close>

fun add_loop :: "bool \<Rightarrow> nat \<Rightarrow> nat \<Rightarrow> bool \<Rightarrow> bool list \<Rightarrow> nat list
                 \<Rightarrow> py_error option \<times> bool \<times> bool list" where
  "add_loop skip_check bps offset found_all_bits bits [] = (None, found_all_bits, bits)"
| "add_loop skip_check bps offset found_all_bits bits (k # ks) =
     (if length bits \<le> offset + k then (Some IndexError_bitarray, found_all_bits, bits)
      else add_loop skip_check bps (offset + bps)
             (if \<not> skip_check \<and> found_all_bits \<and> \<not> bits ! (offset + k) then False
              else found_all_bits)
             (bits[offset + k := True]) ks)"

definition add :: "hasher \<Rightarrow> BloomFilter \<Rightarrow> bytes \<Rightarrow> bool \<Rightarrow> (py_error + bool) \<times> BloomFilter" where
  "add H f key skip_check =
     (if count f > capacity f then (Inl IndexError_at_capacity, f)
      else (case make_hashes H f key of
              Inl e \<Rightarrow> (Inl e, f)
            | Inr hashes \<Rightarrow>
                (case add_loop skip_check (bits_per_slice f) 0 True (bitarray f) hashes of
                   (Some e, found_all_bits, bits) \<Rightarrow> (Inl e, f\<lparr>bitarray := bits\<rparr>)
                 | (None, found_all_bits, bits) \<Rightarrow>
                     if skip_check then (Inr False, f\<lparr>bitarray := bits, count := count f + 1\<rparr>)
                     else if \<not> found_all_bits
                       then (Inr False, f\<lparr>bitarray := bits, count := count f + 1\<rparr>)
                     else (Inr True, f\<lparr>bitarray := bits\<rparr>))))"

text \<open>\<open>copy\<close> builds a new filter with the constructor, so it can raise what the
  constructor raises, and then takes over the bits and the count.\<close>

definition copy :: "BloomFilter \<Rightarrow> py_error + BloomFilter" where
  "copy f =
     (case BloomFilter_init (capacity f) (error_rate f) of
        Inl e \<Rightarrow> Inl e
      | Inr new_filter \<Rightarrow> Inr (new_filter\<lparr>bitarray := bitarray f, count := count f\<rparr>))"

text \<open>The operators \<open>|\<close> and \<open>&\<close> of bitarray refuse operands of different lengths.\<close>

definition bitarray_or :: "bool list \<Rightarrow> bool list \<Rightarrow> py_error + bool list" where
  "bitarray_or xs ys =
     (if length xs \<noteq> length ys then Inl ValueError_bitarray_length
      else Inr (map2 (\<or>) xs ys))"

definition bitarray_and :: "bool list \<Rightarrow> bool list \<Rightarrow> py_error + bool list" where
  "bitarray_and xs ys =
     (if length xs \<noteq> length ys then Inl ValueError_bitarray_length
      else Inr (map2 (\<and>) xs ys))"

text \<open>\<open>bitarray.count()\<close>: the number of set bits.\<close>

definition bitarray_count :: "bool list \<Rightarrow> nat" where
  "bitarray_count bits = length (filter (\<lambda>b. b) bits)"

text \<open>\<open>math.log\<close>, float division and \<open>int\<close> of a float (truncation towards zero).\<close>

definition math_log :: "real \<Rightarrow> py_error + real" where
  "math_log x = (if x \<le> 0 then Inl ValueError_math_domain else Inr (ln x))"

definition float_div :: "real \<Rightarrow> real \<Rightarrow> py_error + real" where
  "float_div x y = (if y = 0 then Inl ZeroDivisionError else Inr (x / y))"

definition py_int :: "real \<Rightarrow> int" where
  "py_int x = (if 0 \<le> x then \<lfloor>x\<rfloor> else \<lceil>x\<rceil>)"

text \<open>The expression inside \<open>try\<close>:
  \<open>int(math.log(1 - float(bits.count()) / len(bits)) / (num_slices * math.log(1 - 1. / len(bits))))\<close>.\<close>

definition estimate_count :: "nat \<Rightarrow> bool list \<Rightarrow> py_error + int" where
  "estimate_count k bits =
     (case float_div (of_nat (bitarray_count bits)) (of_nat (length bits)) of
        Inl e \<Rightarrow> Inl e
      | Inr p \<Rightarrow>
          (case math_log (1 - p) of
             Inl e \<Rightarrow> Inl e
           | Inr a \<Rightarrow>
               (case float_div 1 (of_nat (length bits)) of
                  Inl e \<Rightarrow> Inl e
                | Inr q \<Rightarrow>
                    (case math_log (1 - q) of
                       Inl e \<Rightarrow> Inl e
                     | Inr b \<Rightarrow>
                         (case float_div a (of_nat k * b) of
                            Inl e \<Rightarrow> Inl e
                          | Inr r \<Rightarrow> Inr (py_int r))))))"

text \<open>\<open>try: count = ... except: count = len(bitarray)\<close>.\<close>

definition recount :: "BloomFilter \<Rightarrow> BloomFilter" where
  "recount new_bloom =
     (case estimate_count (num_slices new_bloom) (bitarray new_bloom) of
        Inr c \<Rightarrow> new_bloom\<lparr>count := c\<rparr>
      | Inl e \<Rightarrow> new_bloom\<lparr>count := int (length (bitarray new_bloom))\<rparr>)"

definition BloomFilter_union :: "BloomFilter \<Rightarrow> BloomFilter \<Rightarrow> py_error + BloomFilter" where
  "BloomFilter_union self other =
     (if capacity self \<noteq> capacity other \<or> error_rate self \<noteq> error_rate other
      then Inl ValueError_union
      else (case copy self of
              Inl e \<Rightarrow> Inl e
            | Inr new_bloom \<Rightarrow>
                (case bitarray_or (bitarray new_bloom) (bitarray other) of
                   Inl e \<Rightarrow> Inl e
                 | Inr bits \<Rightarrow> Inr (recount (new_bloom\<lparr>bitarray := bits\<rparr>)))))"

definition BloomFilter_intersection :: "BloomFilter \<Rightarrow> BloomFilter \<Rightarrow> py_error + BloomFilter" where
  "BloomFilter_intersection self other =
     (if capacity self \<noteq> capacity other \<or> error_rate self \<noteq> error_rate other
      then Inl ValueError_intersection
      else (case copy self of
              Inl e \<Rightarrow> Inl e
            | Inr new_bloom \<Rightarrow>
                (case bitarray_and (bitarray new_bloom) (bitarray other) of
                   Inl e \<Rightarrow> Inl e
                 | Inr bits \<Rightarrow> Inr (recount (new_bloom\<lparr>bitarray := bits\<rparr>)))))"

subsection \<open>Binary serialisation: \<open>tofile\<close> and \<open>fromfile\<close>\<close>

text \<open>
  A file object is the list of the bytes written to it, or still to be read from it (the
  \<open>is_string_io\<close> branch; the other branch moves the same bytes). The format \<open><dQQQQ\<close> is
  a double and four unsigned 64-bit integers, little-endian, 40 bytes. The encoding of a
  double is a parameter: \<open>enc x j\<close> is byte \<open>j\<close> of the eight bytes of \<open>x\<close>, and \<open>dec\<close> reads
  eight bytes back.
\<close>

fun le_bytes :: "nat \<Rightarrow> nat \<Rightarrow> bytes" where
  "le_bytes 0 v = []"
| "le_bytes (Suc n) v = of_nat (v mod 256) # le_bytes n (v div 256)"

definition pack_Q :: "int \<Rightarrow> py_error + bytes" where
  "pack_Q v = (if v < 0 \<or> 2 ^ 64 \<le> v then Inl StructError else Inr (le_bytes 8 (nat v)))"

definition pack_header :: "(real \<Rightarrow> nat \<Rightarrow> byte) \<Rightarrow> BloomFilter \<Rightarrow> py_error + bytes" where
  "pack_header enc f =
     (case pack_Q (int (num_slices f)) of Inl e \<Rightarrow> Inl e | Inr a \<Rightarrow>
     (case pack_Q (int (bits_per_slice f)) of Inl e \<Rightarrow> Inl e | Inr b \<Rightarrow>
     (case pack_Q (capacity f) of Inl e \<Rightarrow> Inl e | Inr c \<Rightarrow>
     (case pack_Q (count f) of Inl e \<Rightarrow> Inl e | Inr d \<Rightarrow>
        Inr (map (enc (error_rate f)) [0..<8] @ a @ b @ c @ d)))))"

text \<open>\<open>bitarray.tobytes()\<close> and \<open>frombytes\<close> with \<open>endian='little'\<close>: bit \<open>8 * j + i\<close> of the
  vector is bit \<open>i\<close> of byte \<open>j\<close>; the last byte is padded with zero bits.\<close>

fun bits_to_byte :: "bool list \<Rightarrow> byte" where
  "bits_to_byte [] = 0"
| "bits_to_byte (b # bs) = (if b then 1 else 0) + 2 * bits_to_byte bs"

definition tobytes :: "bool list \<Rightarrow> bytes" where
  "tobytes bits =
     map (\<lambda>j. bits_to_byte (take 8 (drop (8 * j) bits))) [0..<(length bits + 7) div 8]"

definition byte_to_bits :: "byte \<Rightarrow> bool list" where
  "byte_to_bits b = map (bit b) [0..<8]"

definition frombytes :: "bytes \<Rightarrow> bool list" where
  "frombytes bs = concat (map byte_to_bits bs)"

definition tofile :: "(real \<Rightarrow> nat \<Rightarrow> byte) \<Rightarrow> BloomFilter \<Rightarrow> py_error + bytes" where
  "tofile enc f =
     (case pack_header enc f of
        Inl e \<Rightarrow> Inl e
      | Inr header \<Rightarrow> Inr (header @ tobytes (bitarray f)))"

text \<open>
  \<open>fromfile(f, n)\<close>. The bogus \<open>cls(1)\<close> is overwritten field by field and cannot raise.
  \<open>f.read(k)\<close> returns at most \<open>k\<close> bytes; \<open>unpack\<close> raises on a short header. The last
  condition is printed in the source with its closing parenthesis missing; it is read
  as \<open>num_bits != len(bits) and (num_bits + (8 - num_bits % 8)) != len(bits)\<close>.
\<close>

definition headerlen :: nat where
  "headerlen = 40"

definition fromfile :: "(bytes \<Rightarrow> real) \<Rightarrow> bytes \<Rightarrow> int \<Rightarrow> py_error + BloomFilter" where
  "fromfile dec f n =
     (if 0 < n \<and> n < int headerlen then Inl ValueError_n_too_small
      else let header = take headerlen f in
        if length header \<noteq> headerlen then Inl StructError
        else
          let er = dec (take 8 header);
              ns = le_uint (take 8 (drop 8 header));
              bps = le_uint (take 8 (drop 16 header));
              cap = int (le_uint (take 8 (drop 24 header)));
              cnt = int (le_uint (take 8 (drop 32 header)));
              rest = drop headerlen f;
              bits = frombytes (if n > 0 then take (nat (n - int headerlen)) rest else rest);
              flt = BloomFilter_setup er ns bps cap cnt bits
          in if num_bits flt \<noteq> length (bitarray flt)
                \<and> num_bits flt + (8 - num_bits flt mod 8) \<noteq> length (bitarray flt)
             then Inl ValueError_bit_length
             else Inr flt)"

subsection \<open>\<open>ScalableBloomFilter\<close>\<close>

record ScalableBloomFilter =
  scale :: int
  ratio :: real
  initial_capacity :: int
  sbf_error_rate :: real
  sbf_filters :: "BloomFilter list"

text \<open>\<open>__init__\<close>: \<open>not error_rate\<close> holds of the float zero.\<close>

definition ScalableBloomFilter_init :: "int \<Rightarrow> real \<Rightarrow> int \<Rightarrow> py_error + ScalableBloomFilter" where
  "ScalableBloomFilter_init init_capacity er mode =
     (if er = 0 \<or> er < 0 then Inl ValueError_sbf_error_rate
      else Inr \<lparr>scale = mode, ratio = 9 / 10, initial_capacity = init_capacity,
                sbf_error_rate = er, sbf_filters = []\<rparr>)"



text \<open>\<open>filter.add(key, skip_check=True); return False\<close>, where \<open>filter\<close> (here \<open>flt\<close>)
  is the last element of the list \<open>fs\<close>, which the call mutates in place.\<close>

definition add_to_last :: "hasher \<Rightarrow> BloomFilter list \<Rightarrow> bytes \<Rightarrow> (py_error + bool) \<times> BloomFilter list" where
  "add_to_last H fs key =
     (case add H (last fs) key True of
        (Inl e, flt) \<Rightarrow> (Inl e, butlast fs @ [flt])
      | (Inr r, flt) \<Rightarrow> (Inr False, butlast fs @ [flt]))"


subsection \<open>\<open>DynamicBloomFilter\<close>\<close>

record DynamicBloomFilter =
  individual_error_rate :: real
  max_error_rate :: real
  max_capacity :: int
  base_capacity :: int
  dbf_filters :: "BloomFilter list"

text \<open>
  \<open>_setup\<close>: \<open>1 - math.exp(math.log(1 - error_rate) / math.ceil(max_capacity / base_capacity))\<close>,
  with the division of Python 3. The logarithm is evaluated first, then the quotient of the
  capacities, then the outer division.
\<close>

definition individual_rate :: "int \<Rightarrow> int \<Rightarrow> real \<Rightarrow> py_error + real" where
  "individual_rate base_cap max_cap er =
     (case math_log (1 - er) of
        Inl e \<Rightarrow> Inl e
      | Inr l \<Rightarrow>
          (case float_div (of_int max_cap) (of_int base_cap) of
             Inl e \<Rightarrow> Inl e
           | Inr q \<Rightarrow>
               (case float_div l (of_int \<lceil>q\<rceil>) of
                  Inl e \<Rightarrow> Inl e
                | Inr x \<Rightarrow> Inr (1 - exp x))))"

definition DynamicBloomFilter_init :: "int \<Rightarrow> int \<Rightarrow> real \<Rightarrow> py_error + DynamicBloomFilter" where
  "DynamicBloomFilter_init base_cap max_cap er =
     (if er = 0 \<or> er < 0 then Inl ValueError_dbf_error_rate
      else (case individual_rate base_cap max_cap er of
              Inl e \<Rightarrow> Inl e
            | Inr ier \<Rightarrow>
                Inr \<lparr>individual_error_rate = ier, max_error_rate = er, max_capacity = max_cap,
                     base_capacity = base_cap, dbf_filters = []\<rparr>))"





text \<open>
  \<open>intersection\<close> combines the filters with the keywords \<open>or\<close> and \<open>and\<close> of Python, which
  select one of their operands by its truth value. A \<open>BloomFilter\<close> defines \<open>__len__\<close>
  (its count) and no \<open>__bool__\<close>, so it is true when its count is not zero.
\<close>

definition truthy :: "BloomFilter \<Rightarrow> bool" where
  "truthy f \<longleftrightarrow> count f \<noteq> 0"

definition py_or :: "BloomFilter \<Rightarrow> BloomFilter \<Rightarrow> BloomFilter" where
  "py_or a b = (if truthy a then a else b)"

definition py_and :: "BloomFilter \<Rightarrow> BloomFilter \<Rightarrow> BloomFilter" where
  "py_and a b = (if truthy a then b else a)"

text \<open>\<open>for other_filter in other.filters: bloom = bloom or (bloom_filter and other_filter)\<close>.\<close>

fun fold_other :: "BloomFilter \<Rightarrow> BloomFilter \<Rightarrow> BloomFilter list \<Rightarrow> BloomFilter" where
  "fold_other bloom bloom_filter [] = bloom"
| "fold_other bloom bloom_filter (other_filter # rest) =
     fold_other (py_or bloom (py_and bloom_filter other_filter)) bloom_filter rest"

text \<open>\<open>for bloom_filter in self.filters\<close>: a fresh filter, the fold, the append.\<close>

fun intersection_loop :: "int \<Rightarrow> real \<Rightarrow> BloomFilter list \<Rightarrow> BloomFilter list
    \<Rightarrow> py_error + BloomFilter list" where
  "intersection_loop base_cap ier [] other_filters = Inr []"
| "intersection_loop base_cap ier (bloom_filter # my_filters) other_filters =
     (case BloomFilter_init base_cap ier of
        Inl e \<Rightarrow> Inl e
      | Inr bloom \<Rightarrow>
          (case intersection_loop base_cap ier my_filters other_filters of
             Inl e \<Rightarrow> Inl e
           | Inr rest \<Rightarrow> Inr (fold_other bloom bloom_filter other_filters # rest)))"

definition DynamicBloomFilter_intersection :: "DynamicBloomFilter \<Rightarrow> DynamicBloomFilter
    \<Rightarrow> py_error + DynamicBloomFilter" where
  "DynamicBloomFilter_intersection self other =
     (if base_capacity self \<noteq> base_capacity other
         \<or> individual_error_rate self \<noteq> individual_error_rate other
      then Inl ValueError_dbf_mismatch
      else (case DynamicBloomFilter_init (base_capacity self) (max_capacity self)
                   (max_error_rate self) of
              Inl e \<Rightarrow> Inl e
            | Inr new_bloom \<Rightarrow>
                (case intersection_loop (base_capacity self) (individual_error_rate self)
                        (dbf_filters self) (dbf_filters other) of
                   Inl e \<Rightarrow> Inl e
                 | Inr fs \<Rightarrow> Inr (new_bloom\<lparr>dbf_filters := fs\<rparr>))))"

subsection \<open>Notions used to state the properties\<close>

text \<open>The absolute bit indices that \<open>__contains__\<close> and \<open>add\<close> touch for a list of hashes:
  \<open>offset + k\<close>, with \<open>offset\<close> advanced by \<open>bits_per_slice\<close> after each.\<close>

fun bit_indices :: "nat \<Rightarrow> nat \<Rightarrow> nat list \<Rightarrow> nat list" where
  "bit_indices bps offset [] = []"
| "bit_indices bps offset (k # ks) = (offset + k) # bit_indices bps (offset + bps) ks"

text \<open>A bit vector with the bits at the given indices set.\<close>

definition set_bits :: "bool list \<Rightarrow> nat list \<Rightarrow> bool list" where
  "set_bits bits idxs = fold (\<lambda>j b. b[j := True]) idxs bits"

text \<open>A filter as the constructor and \<open>add\<close> leave it: the slice count, the slice size
  and \<open>num_bits\<close> are the ones \<open>__init__\<close> computes from the capacity and the error rate,
  and the bit vector has \<open>num_bits\<close> bits.\<close>

definition constructed :: "BloomFilter \<Rightarrow> bool" where
  "constructed f \<longleftrightarrow>
     BloomFilter_init (capacity f) (error_rate f)
       = Inr (f\<lparr>count := 0, bitarray := replicate (num_bits f) False\<rparr>)
     \<and> length (bitarray f) = num_bits f"

text \<open>The estimator of the specification, section 4.3: the integer value of
  \<open>ln(1 - set_bits/total_bits) / (slice_count * ln(1 - 1/total_bits))\<close>, and \<open>total_bits\<close>
  where that formula is undefined (a division by zero or the logarithm of a number that
  is not positive).\<close>

definition cardinality_estimate :: "nat \<Rightarrow> nat \<Rightarrow> nat \<Rightarrow> int" where
  "cardinality_estimate set_count total_bits slice_count =
     (if total_bits = 0 \<or> 1 - real set_count / real total_bits \<le> 0
         \<or> 1 - 1 / real total_bits \<le> 0
         \<or> real slice_count * ln (1 - 1 / real total_bits) = 0
      then int total_bits
      else py_int (ln (1 - real set_count / real total_bits)
                    / (real slice_count * ln (1 - 1 / real total_bits))))"

text \<open>The fold of \<open>DynamicBloomFilter.intersection\<close> as the specification words it
  (section 4.5): \<open>accumulator = accumulator OR (self_filter AND other_filter)\<close>, with the
  union and the intersection of filters for OR and AND.\<close>

fun spec_fold_other :: "BloomFilter \<Rightarrow> BloomFilter \<Rightarrow> BloomFilter list \<Rightarrow> py_error + BloomFilter" where
  "spec_fold_other accumulator self_filter [] = Inr accumulator"
| "spec_fold_other accumulator self_filter (other_filter # rest) =
     (case BloomFilter_intersection self_filter other_filter of
        Inl e \<Rightarrow> Inl e
      | Inr both \<Rightarrow>
          (case BloomFilter_union accumulator both of
             Inl e \<Rightarrow> Inl e
           | Inr accumulator' \<Rightarrow> spec_fold_other accumulator' self_filter rest))"


section \<open>Properties\<close>

subsection \<open>The hash sequence\<close>

lemma chunk_size_cases: "chunk_size nb = 2 \<or> chunk_size nb = 4 \<or> chunk_size nb = 8"
  by (simp add: chunk_size_def)

lemma sha1_not_Q: "chunk_size nb = 8 \<Longrightarrow> choose_hashfn ns nb \<noteq> SHA1"
  unfolding choose_hashfn_def total_hash_bits_def Let_def
  by (simp split: if_splits)

lemma digest_size_fmt_len:
  "fmt_len ns nb * chunk_size nb = digest_size (choose_hashfn ns nb)"
proof -
  consider "chunk_size nb = 2" | "chunk_size nb = 4" | "chunk_size nb = 8"
    using chunk_size_cases by blast
  then show ?thesis
  proof cases
    case 1
    then show ?thesis
      by (cases "choose_hashfn ns nb") (simp_all add: fmt_len_def)
  next
    case 2
    then show ?thesis
      by (cases "choose_hashfn ns nb") (simp_all add: fmt_len_def)
  next
    case 3
    then show ?thesis
      using sha1_not_Q [OF 3, of ns]
      by (cases "choose_hashfn ns nb") (simp_all add: fmt_len_def)
  qed
qed

lemma fmt_len_pos: "2 \<le> fmt_len ns nb"
proof -
  have d: "digest_size (choose_hashfn ns nb) \<ge> 16"
    by (cases "choose_hashfn ns nb") simp_all
  have e: "fmt_len ns nb * chunk_size nb \<ge> 16"
    using d by (simp add: digest_size_fmt_len)
  consider "chunk_size nb = 2" | "chunk_size nb = 4" | "chunk_size nb = 8"
    using chunk_size_cases by blast
  then show ?thesis
  proof cases
    case 1
    with e show ?thesis by simp
  next
    case 2
    with e show ?thesis by simp
  next
    case 3
    with e show ?thesis by simp
  qed
qed


lemma unpack_digest:
  "\<exists>uints. unpack (chunk_size nb) (fmt_len ns nb) (digest H (choose_hashfn ns nb) i key) = Inr uints
     \<and> length uints = fmt_len ns nb"
  by (simp add: unpack_def digest_def digest_size_fmt_len)

lemma yield_uints_ok:
  "0 < nb \<Longrightarrow> i < ns \<Longrightarrow>
   \<exists>ys. yield_uints ns nb i us = Inr (ys, i + length ys, ns - i \<le> length us)
      \<and> length ys = min (ns - i) (length us) \<and> (\<forall>y \<in> set ys. y < nb)"
proof (induction us arbitrary: i)
  case Nil
  then show ?case by simp
next
  case (Cons u us)
  show ?case
  proof (cases "ns \<le> i + 1")
    case True
    with Cons.prems show ?thesis by auto
  next
    case False
    then have "i + 1 < ns" by simp
    from Cons.IH [OF Cons.prems(1) this] obtain ys where
      ys: "yield_uints ns nb (i + 1) us = Inr (ys, i + 1 + length ys, ns - (i + 1) \<le> length us)"
        "length ys = min (ns - (i + 1)) (length us)" "\<forall>y \<in> set ys. y < nb"
      by blast
    have "yield_uints ns nb i (u # us)
        = Inr (u mod nb # ys, i + length (u # ys), ns - i \<le> length (u # us))"
      using Cons.prems False ys(1) by auto
    moreover have "length (u mod nb # ys) = min (ns - i) (length (u # us))"
      using False ys(2) by auto
    moreover have "\<forall>y \<in> set (u mod nb # ys). y < nb"
      using Cons.prems(1) ys(3) by simp
    ultimately show ?thesis by auto
  qed
qed

lemma num_salts_enough: "ns \<le> num_salts ns nb * fmt_len ns nb"
proof -
  let ?n = "fmt_len ns nb"
  have pos: "0 < ?n" using fmt_len_pos [of ns nb] by simp
  have eq: "ns div ?n * ?n + ns mod ?n = ns" by (rule div_mult_mod_eq)
  have lt: "ns mod ?n < ?n" using pos by simp
  show ?thesis
  proof (cases "ns mod ?n = 0")
    case True
    with eq show ?thesis by (simp add: num_salts_def Let_def)
  next
    case False
    have "ns \<le> ns div ?n * ?n + ?n" using eq lt by linarith
    with False show ?thesis by (simp add: num_salts_def Let_def)
  qed
qed


lemma salts_loop_ok:
  "0 < nb \<Longrightarrow> i < ns \<Longrightarrow>
   \<exists>ys. salts_loop H ns nb key i salts = Inr ys
      \<and> length ys = min (ns - i) (length salts * fmt_len ns nb) \<and> (\<forall>y \<in> set ys. y < nb)"
proof (induction salts arbitrary: i)
  case Nil
  then show ?case by simp
next
  case (Cons s salts)
  obtain uints where u: "unpack (chunk_size nb) (fmt_len ns nb) (digest H (choose_hashfn ns nb) s key) = Inr uints"
     "length uints = fmt_len ns nb"
    using unpack_digest by blast
  from yield_uints_ok [OF Cons.prems, of uints] obtain ys where
    ys: "yield_uints ns nb i uints = Inr (ys, i + length ys, ns - i \<le> length uints)"
      "length ys = min (ns - i) (length uints)" "\<forall>y \<in> set ys. y < nb"
    by blast
  show ?case
  proof (cases "ns - i \<le> length uints")
    case True
    have "salts_loop H ns nb key i (s # salts) = Inr ys"
      using u(1) ys(1) True by simp
    moreover have "length ys = min (ns - i) (length (s # salts) * fmt_len ns nb)"
      using True ys(2) u(2) by (simp add: min_def)
    ultimately show ?thesis using ys(3) by blast
  next
    case False
    then have lt: "i + length ys < ns" using ys(2) by simp
    from Cons.IH [OF Cons.prems(1) lt] obtain zs where
      zs: "salts_loop H ns nb key (i + length ys) salts = Inr zs"
        "length zs = min (ns - (i + length ys)) (length salts * fmt_len ns nb)"
        "\<forall>y \<in> set zs. y < nb"
      by blast
    have "salts_loop H ns nb key i (s # salts) = Inr (ys @ zs)"
      using u(1) ys(1) zs(1) False by simp
    moreover have "length (ys @ zs) = min (ns - i) (length (s # salts) * fmt_len ns nb)"
    proof -
      define L where "L = fmt_len ns nb"
      define m where "m = length salts * fmt_len ns nb"
      have a: "length ys = L" using False ys(2) u(2) by (simp add: L_def)
      have b: "length zs = min (ns - (i + L)) m" using zs(2) a by (simp add: m_def)
      have c: "\<not> ns - i \<le> L" using False u(2) by (simp add: L_def)
      have "L + min (ns - (i + L)) m = min (ns - i) (L + m)" using c by arith
      then show ?thesis using a b by (simp add: L_def m_def)
    qed
    moreover have "\<forall>y \<in> set (ys @ zs). y < nb"
      using ys(3) zs(3) by auto
    ultimately show ?thesis by blast
  qed
qed

lemma make_hashfuncs_ok:
  assumes "0 < nb"
  shows "\<exists>hs. make_hashfuncs H ns nb key = Inr hs \<and> length hs = ns \<and> (\<forall>k \<in> set hs. k < nb)"
proof (cases "ns = 0")
  case True
  have "num_salts 0 nb = 0" using fmt_len_pos [of 0 nb] by (simp add: num_salts_def Let_def)
  with True show ?thesis by (simp add: make_hashfuncs_def)
next
  case False
  then have "0 < ns" by simp
  from salts_loop_ok [OF assms this, of H key "[0..<num_salts ns nb]"]
  obtain ys where ys: "salts_loop H ns nb key 0 [0..<num_salts ns nb] = Inr ys"
    "length ys = min (ns - 0) (length [0..<num_salts ns nb] * fmt_len ns nb)"
    "\<forall>y \<in> set ys. y < nb" by blast
  have "length ys = ns" using ys(2) num_salts_enough [of ns nb] by simp
  with ys show ?thesis by (simp add: make_hashfuncs_def)
qed

subsection \<open>The loops over the hashed bits\<close>

lemma bit_indices_length: "length (bit_indices bps off hs) = length hs"
  by (induction hs arbitrary: off) simp_all

lemma bit_indices_nth:
  "i < length hs \<Longrightarrow> bit_indices bps off hs ! i = off + i * bps + hs ! i"
proof (induction hs arbitrary: off i)
  case Nil
  then show ?case by simp
next
  case (Cons k ks)
  show ?case
  proof (cases i)
    case 0
    then show ?thesis by simp
  next
    case (Suc m)
    with Cons.prems have "m < length ks" by simp
    from Cons.IH [OF this, of "off + bps"] Suc show ?thesis by simp
  qed
qed

lemma bit_indices_bound:
  "\<forall>k \<in> set hs. k < bps \<Longrightarrow> \<forall>j \<in> set (bit_indices bps off hs). j < off + length hs * bps"
proof (induction hs arbitrary: off)
  case Nil
  then show ?case by simp
next
  case (Cons k ks)
  then have "\<forall>j \<in> set (bit_indices bps (off + bps) ks). j < off + bps + length ks * bps"
    by simp
  moreover have "k < bps" using Cons.prems by simp
  ultimately show ?case by (auto simp: add.assoc)
qed

lemma set_bits_length: "length (set_bits bits idxs) = length bits"
  unfolding set_bits_def by (induction idxs arbitrary: bits) simp_all

lemma set_bits_Cons: "set_bits bits (j # js) = set_bits (bits[j := True]) js"
  by (simp add: set_bits_def)

lemma set_bits_id:
  "list_all (\<lambda>j. bits ! j) idxs \<Longrightarrow> set_bits bits idxs = bits"
proof (induction idxs)
  case Nil
  then show ?case by (simp add: set_bits_def)
next
  case (Cons j js)
  then have "bits ! j" by simp
  then have "bits[j := True] = bits" by (metis list_update_id)
  with Cons show ?case by (simp add: set_bits_Cons)
qed

lemma contains_loop_eq:
  "\<forall>j \<in> set (bit_indices bps off hs). j < length bits \<Longrightarrow>
   contains_loop bits bps off hs = Inr (list_all (\<lambda>j. bits ! j) (bit_indices bps off hs))"
  by (induction hs arbitrary: off) auto

lemma add_loop_eq:
  "\<forall>j \<in> set (bit_indices bps off hs). j < length bits \<Longrightarrow>
   add_loop sc bps off fnd bits hs =
     (None, (if sc then fnd else fnd \<and> list_all (\<lambda>j. bits ! j) (bit_indices bps off hs)),
      set_bits bits (bit_indices bps off hs))"
proof (induction hs arbitrary: off fnd bits)
  case Nil
  then show ?case by (simp add: set_bits_def)
next
  case (Cons k ks)
  let ?bits = "bits[off + k := True]"
  let ?fnd = "if \<not> sc \<and> fnd \<and> \<not> bits ! (off + k) then False else fnd"
  have inb: "off + k < length bits" using Cons.prems by simp
  have rest: "\<forall>j \<in> set (bit_indices bps (off + bps) ks). j < length ?bits"
    using Cons.prems by simp
  have step: "add_loop sc bps off fnd bits (k # ks) = add_loop sc bps (off + bps) ?fnd ?bits ks"
    using inb by simp
  have same: "bits ! (off + k) \<Longrightarrow> ?bits = bits"
    by (metis list_update_id)
  have fnd_eq: "(if sc then ?fnd else ?fnd \<and> list_all (\<lambda>j. ?bits ! j) (bit_indices bps (off + bps) ks))
      = (if sc then fnd else fnd \<and> list_all (\<lambda>j. bits ! j) (bit_indices bps off (k # ks)))"
    using same by (cases "bits ! (off + k)") auto
  show ?case
    unfolding step Cons.IH [OF rest] fnd_eq by (simp add: set_bits_Cons)
qed

subsection \<open>Which exceptions the loops can raise\<close>

lemma yield_uints_error:
  "yield_uints ns nb i us = Inl e \<Longrightarrow> e = ZeroDivisionError"
  by (induction us arbitrary: i) (auto split: if_splits sum.splits)

lemma salts_loop_error:
  "salts_loop H ns nb key i salts = Inl e \<Longrightarrow> e = ZeroDivisionError \<or> e = StructError"
proof (induction salts arbitrary: i)
  case Nil
  then show ?case by simp
next
  case (Cons s salts)
  then show ?case
    by (auto simp: unpack_def split: sum.splits if_splits dest: yield_uints_error)
qed

lemma make_hashes_error:
  "make_hashes H f key = Inl e \<Longrightarrow> e = ZeroDivisionError \<or> e = StructError"
  unfolding make_hashes_def make_hashfuncs_def by (rule salts_loop_error)

lemma add_loop_error:
  "add_loop sc bps off fnd bits hs = (Some e, r) \<Longrightarrow> e = IndexError_bitarray"
  by (induction hs arbitrary: off fnd bits) (auto split: if_splits)

lemma make_hashes_ok:
  assumes "0 < bits_per_slice f"
  shows "\<exists>hs. make_hashes H f key = Inr hs \<and> length hs = num_slices f
     \<and> (\<forall>k \<in> set hs. k < bits_per_slice f)
     \<and> (\<forall>j \<in> set (bit_indices (bits_per_slice f) 0 hs). j < num_slices f * bits_per_slice f)"
proof -
  from make_hashfuncs_ok [OF assms, of H "num_slices f" key]
  obtain hs where hs: "make_hashfuncs H (num_slices f) (bits_per_slice f) key = Inr hs"
    "length hs = num_slices f" "\<forall>k \<in> set hs. k < bits_per_slice f"
    by blast
  from bit_indices_bound [OF hs(3), of 0]
  have "\<forall>j \<in> set (bit_indices (bits_per_slice f) 0 hs). j < num_slices f * bits_per_slice f"
    using hs(2) by simp
  with hs show ?thesis by (simp add: make_hashes_def)
qed

subsection \<open>Insertion into a \<open>BloomFilter\<close>\<close>

text \<open>
  Claim C5. For positive \<open>num_slices\<close> and \<open>bits_per_slice\<close> the generator yields, for every
  key and whatever the digests are, exactly \<open>num_slices\<close> positions, each below
  \<open>bits_per_slice\<close>. Every absolute index \<open>offset + position\<close> is then below \<open>num_bits\<close>, so
  on a filter whose bit vector has \<open>num_bits = num_slices * bits_per_slice\<close> bits the
  membership test returns a truth value and insertion raises nothing but the capacity
  error: the bit vector is never indexed out of range.
\<close>

theorem hash_positions_in_range:
  assumes "0 < num_slices f" and "0 < bits_per_slice f"
    and "num_bits f = num_slices f * bits_per_slice f"
    and "length (bitarray f) = num_bits f"
  shows "\<exists>hashes. make_hashfuncs H (num_slices f) (bits_per_slice f) key = Inr hashes
      \<and> length hashes = num_slices f
      \<and> (\<forall>k \<in> set hashes. k < bits_per_slice f)
      \<and> (\<forall>j \<in> set (bit_indices (bits_per_slice f) 0 hashes). j < num_bits f)
      \<and> (\<exists>b. contains H f key = Inr b)
      \<and> (fst (add H f key skip_check) = Inl IndexError_at_capacity
           \<or> (\<exists>b. fst (add H f key skip_check) = Inr b))"
proof -
  from make_hashes_ok [OF assms(2), of H key]
  obtain hs where hs: "make_hashes H f key = Inr hs" "length hs = num_slices f"
    "\<forall>k \<in> set hs. k < bits_per_slice f"
    "\<forall>j \<in> set (bit_indices (bits_per_slice f) 0 hs). j < num_slices f * bits_per_slice f"
    by blast
  have inb: "\<forall>j \<in> set (bit_indices (bits_per_slice f) 0 hs). j < length (bitarray f)"
    using hs(4) assms(3,4) by simp
  have c: "\<exists>b. contains H f key = Inr b"
    using hs(1) contains_loop_eq [OF inb] by (simp add: contains_def)
  have a: "fst (add H f key skip_check) = Inl IndexError_at_capacity
           \<or> (\<exists>b. fst (add H f key skip_check) = Inr b)"
    using hs(1) add_loop_eq [OF inb, of skip_check True] by (auto simp: add_def)
  show ?thesis
    using hs c a assms(3) by (auto simp: make_hashes_def)
qed

theorem hash_positions_in_range_witness:
  "0 < num_slices \<lparr>error_rate = 1 / 2, num_slices = 1, bits_per_slice = 2, capacity = 1,
       count = 0, num_bits = 2, bitarray = [False, False]\<rparr>
   \<and> (\<exists>b. contains (\<lambda>hf i key j. 0)
         \<lparr>error_rate = 1 / 2, num_slices = 1, bits_per_slice = 2, capacity = 1,
          count = 0, num_bits = 2, bitarray = [False, False]\<rparr> [] = Inr b)"
proof -
  let ?f = "\<lparr>error_rate = 1 / 2, num_slices = 1, bits_per_slice = 2, capacity = 1,
       count = 0, num_bits = 2, bitarray = [False, False]\<rparr>"
  have h1: "0 < num_slices ?f" by simp
  have h2: "0 < bits_per_slice ?f" by simp
  have h3: "num_bits ?f = num_slices ?f * bits_per_slice ?f" by simp
  have h4: "length (bitarray ?f) = num_bits ?f" by simp
  from hash_positions_in_range [OF h1 h2 h3 h4, of "\<lambda>hf i key j. 0" "[]" False]
  show ?thesis using h1 by blast
qed

lemma add_characterisation:
  assumes "0 < bits_per_slice f"
    and "num_slices f * bits_per_slice f \<le> length (bitarray f)"
    and "count f \<le> capacity f"
  shows "\<exists>hashes. make_hashes H f key = Inr hashes \<and> length hashes = num_slices f
      \<and> contains H f key
           = Inr (list_all (\<lambda>j. bitarray f ! j) (bit_indices (bits_per_slice f) 0 hashes))
      \<and> add H f key False =
          (if list_all (\<lambda>j. bitarray f ! j) (bit_indices (bits_per_slice f) 0 hashes)
           then (Inr True, f)
           else (Inr False,
                 f\<lparr>bitarray := set_bits (bitarray f) (bit_indices (bits_per_slice f) 0 hashes),
                   count := count f + 1\<rparr>))
      \<and> add H f key True =
          (Inr False,
           f\<lparr>bitarray := set_bits (bitarray f) (bit_indices (bits_per_slice f) 0 hashes),
             count := count f + 1\<rparr>)"
proof -
  from make_hashes_ok [OF assms(1), of H key]
  obtain hs where hs: "make_hashes H f key = Inr hs" "length hs = num_slices f"
    "\<forall>j \<in> set (bit_indices (bits_per_slice f) 0 hs). j < num_slices f * bits_per_slice f"
    by blast
  let ?idxs = "bit_indices (bits_per_slice f) 0 hs"
  have inb: "\<forall>j \<in> set ?idxs. j < length (bitarray f)"
    using hs(3) assms(2) by auto
  have c: "contains H f key = Inr (list_all (\<lambda>j. bitarray f ! j) ?idxs)"
    using hs(1) contains_loop_eq [OF inb] by (simp add: contains_def)
  have cap: "\<not> capacity f < count f" using assms(3) by simp
  have a1: "add H f key False =
          (if list_all (\<lambda>j. bitarray f ! j) ?idxs then (Inr True, f)
           else (Inr False, f\<lparr>bitarray := set_bits (bitarray f) ?idxs, count := count f + 1\<rparr>))"
    using hs(1) cap add_loop_eq [OF inb, of False True] set_bits_id [of "bitarray f" ?idxs]
    by (simp add: add_def)
  have a2: "add H f key True =
          (Inr False, f\<lparr>bitarray := set_bits (bitarray f) ?idxs, count := count f + 1\<rparr>)"
    using hs(1) cap add_loop_eq [OF inb, of True True] by (simp add: add_def)
  show ?thesis using hs(1,2) c a1 a2 by blast
qed

text \<open>
  Claim C1. On a filter whose bit vector covers its slices and whose count does not exceed
  its capacity, \<open>add\<close> without \<open>skip_check\<close> returns \<open>True\<close> exactly when all \<open>num_slices\<close>
  hashed bits were set before the call (which is what the membership test answers), and
  then leaves the filter as it was; otherwise it sets those bits, increments \<open>count\<close> and
  returns \<open>False\<close>. With \<open>skip_check\<close> it sets the bits, increments \<open>count\<close> and returns
  \<open>False\<close> whatever the bits were.
\<close>

theorem add_returns_membership:
  assumes "0 < bits_per_slice f"
    and "num_slices f * bits_per_slice f \<le> length (bitarray f)"
    and "count f \<le> capacity f"
  shows "\<exists>hashes. make_hashes H f key = Inr hashes \<and> length hashes = num_slices f
      \<and> contains H f key
           = Inr (list_all (\<lambda>j. bitarray f ! j) (bit_indices (bits_per_slice f) 0 hashes))
      \<and> add H f key False =
          (if list_all (\<lambda>j. bitarray f ! j) (bit_indices (bits_per_slice f) 0 hashes)
           then (Inr True, f)
           else (Inr False,
                 f\<lparr>bitarray := set_bits (bitarray f) (bit_indices (bits_per_slice f) 0 hashes),
                   count := count f + 1\<rparr>))
      \<and> add H f key True =
          (Inr False,
           f\<lparr>bitarray := set_bits (bitarray f) (bit_indices (bits_per_slice f) 0 hashes),
             count := count f + 1\<rparr>)"
  using assms by (rule add_characterisation)

subsection \<open>A concrete hasher: all digests zero\<close>

lemma le_uint_zeros: "\<forall>b \<in> set bs. b = 0 \<Longrightarrow> le_uint bs = 0"
  by (induction bs) simp_all

lemma unpack_zero_digest:
  assumes "unpack c n (digest (\<lambda>hf i key j. 0) hf s key) = Inr us"
  shows "\<forall>u \<in> set us. u = 0"
proof -
  have z: "\<forall>b \<in> set (take c (drop m (digest (\<lambda>hf i key j. 0) hf s key))). b = 0" for m
  proof
    fix b
    assume "b \<in> set (take c (drop m (digest (\<lambda>hf i key j. 0) hf s key)))"
    then have "b \<in> set (digest (\<lambda>hf i key j. 0) hf s key)"
      by (meson in_set_takeD in_set_dropD)
    then show "b = 0" by (auto simp: digest_def)
  qed
  have "us = map (\<lambda>j. le_uint (take c (drop (j * c) (digest (\<lambda>hf i key j. 0) hf s key)))) [0..<n]"
    using assms by (simp add: unpack_def split: if_splits)
  then show ?thesis using le_uint_zeros [OF z] by simp
qed

lemma make_hashfuncs_zero_1_2:
  "make_hashfuncs (\<lambda>hf i key j. 0) 1 2 key = Inr [0]"
proof -
  have c: "chunk_size 2 = 2" by (simp add: chunk_size_def)
  have h: "choose_hashfn 1 2 = MD5" unfolding choose_hashfn_def total_hash_bits_def c by simp
  have l: "fmt_len 1 2 = 8" unfolding fmt_len_def h c by simp
  have n: "num_salts 1 2 = 1" unfolding num_salts_def l by simp
  obtain uints where u: "unpack 2 8 (digest (\<lambda>hf i key j. 0) MD5 0 key) = Inr uints"
      "length uints = 8"
    using unpack_digest [of 2 1 "\<lambda>hf i key j. 0" 0 key] unfolding c h l by auto
  obtain x xs where x: "uints = x # xs" using u(2) by (cases uints) auto
  have "x = 0" using unpack_zero_digest [OF u(1)] x by simp
  with x have "uints = 0 # xs" by simp
  then have "salts_loop (\<lambda>hf i key j. 0) 1 2 key 0 [0] = Inr [0]"
    using u(1) unfolding salts_loop.simps c h l by simp
  then show ?thesis
    unfolding make_hashfuncs_def n by simp
qed

lemma make_hashfuncs_zero_Suc_0_2:
  "make_hashfuncs (\<lambda>hf i key j. 0) (Suc 0) 2 key = Inr [0]"
  using make_hashfuncs_zero_1_2 [of key] by simp

theorem add_returns_membership_witness:
  "0 < bits_per_slice \<lparr>error_rate = 1 / 2, num_slices = 1, bits_per_slice = 2, capacity = 1,
       count = 0, num_bits = 2, bitarray = [False, False]\<rparr>
   \<and> add (\<lambda>hf i key j. 0)
         \<lparr>error_rate = 1 / 2, num_slices = 1, bits_per_slice = 2, capacity = 1,
          count = 0, num_bits = 2, bitarray = [False, False]\<rparr> [] False
       = (Inr False,
          \<lparr>error_rate = 1 / 2, num_slices = 1, bits_per_slice = 2, capacity = 1,
           count = 1, num_bits = 2, bitarray = [True, False]\<rparr>)
   \<and> add (\<lambda>hf i key j. 0)
         \<lparr>error_rate = 1 / 2, num_slices = 1, bits_per_slice = 2, capacity = 1,
          count = 1, num_bits = 2, bitarray = [True, False]\<rparr> [] False
       = (Inr True,
          \<lparr>error_rate = 1 / 2, num_slices = 1, bits_per_slice = 2, capacity = 1,
           count = 1, num_bits = 2, bitarray = [True, False]\<rparr>)"
proof -
  let ?H = "\<lambda>(hf :: hashfn) (i :: nat) (key :: bytes) (j :: nat). 0 :: byte"
  let ?f = "\<lparr>error_rate = 1 / 2, num_slices = 1, bits_per_slice = 2, capacity = 1,
       count = 0, num_bits = 2, bitarray = [False, False]\<rparr>"
  let ?g = "\<lparr>error_rate = 1 / 2, num_slices = 1, bits_per_slice = 2, capacity = 1,
       count = 1, num_bits = 2, bitarray = [True, False]\<rparr>"
  have hf: "make_hashes ?H ?f [] = Inr [0]" and hg: "make_hashes ?H ?g [] = Inr [0]"
    by (simp_all add: make_hashes_def make_hashfuncs_zero_Suc_0_2)
  have f1: "0 < bits_per_slice ?f" by simp
  have f2: "num_slices ?f * bits_per_slice ?f \<le> length (bitarray ?f)" by simp
  have f3: "count ?f \<le> capacity ?f" by simp
  have g1: "0 < bits_per_slice ?g" by simp
  have g2: "num_slices ?g * bits_per_slice ?g \<le> length (bitarray ?g)" by simp
  have g3: "count ?g \<le> capacity ?g" by simp
  have a: "add ?H ?f [] False = (Inr False, ?g)"
    using add_returns_membership [OF f1 f2 f3, of ?H "[]"] hf by (simp add: set_bits_def)
  have b: "add ?H ?g [] False = (Inr True, ?g)"
    using add_returns_membership [OF g1 g2 g3, of ?H "[]"] hg by (simp add: set_bits_def)
  show ?thesis using f1 a b by blast
qed

text \<open>
  Claim C4. \<open>add\<close> raises the capacity error exactly when \<open>count > capacity\<close>, strictly, and
  then the filter is as it was before the call: the check precedes the loop that sets the
  bits. So a filter whose count equals its capacity still accepts an insertion, which
  takes the count one beyond the capacity, and every later call fails.
\<close>

theorem add_capacity_error:
  "(fst (add H f key skip_check) = Inl IndexError_at_capacity \<longleftrightarrow> capacity f < count f)
   \<and> (capacity f < count f \<longrightarrow> add H f key skip_check = (Inl IndexError_at_capacity, f))
   \<and> (count f = capacity f \<and> 0 < bits_per_slice f
        \<and> num_slices f * bits_per_slice f \<le> length (bitarray f) \<longrightarrow>
          fst (add H f key True) = Inr False
        \<and> count (snd (add H f key True)) = capacity f + 1
        \<and> capacity (snd (add H f key True)) = capacity f
        \<and> add H (snd (add H f key True)) key' skip_check
            = (Inl IndexError_at_capacity, snd (add H f key True)))"
proof -
  have raised: "capacity f < count f \<Longrightarrow> add H f key skip_check = (Inl IndexError_at_capacity, f)"
    for f :: BloomFilter and key and skip_check
    by (simp add: add_def)
  have other: "\<not> capacity f < count f \<Longrightarrow> fst (add H f key skip_check) \<noteq> Inl IndexError_at_capacity"
  proof -
    assume le: "\<not> capacity f < count f"
    show ?thesis
    proof (cases "make_hashes H f key")
      case (Inl e)
      then have "e \<noteq> IndexError_at_capacity" using make_hashes_error by blast
      with Inl le show ?thesis by (simp add: add_def)
    next
      case (Inr hs)
      obtain eo fnd bits where l: "add_loop skip_check (bits_per_slice f) 0 True (bitarray f) hs
          = (eo, fnd, bits)" by (metis prod_cases3)
      show ?thesis
      proof (cases eo)
        case None
        with Inr le l show ?thesis by (simp add: add_def)
      next
        case (Some e)
        with l have "e = IndexError_bitarray" using add_loop_error by blast
        with Some Inr le l show ?thesis by (simp add: add_def)
      qed
    qed
  qed
  have one: "fst (add H f key True) = Inr False
        \<and> count (snd (add H f key True)) = capacity f + 1
        \<and> capacity (snd (add H f key True)) = capacity f
        \<and> add H (snd (add H f key True)) key' skip_check
            = (Inl IndexError_at_capacity, snd (add H f key True))"
    if eq: "count f = capacity f" and pos: "0 < bits_per_slice f"
      and len: "num_slices f * bits_per_slice f \<le> length (bitarray f)"
  proof -
    have le: "count f \<le> capacity f" using eq by simp
    from add_characterisation [OF pos len le, of H key]
    obtain hs where a: "add H f key True =
          (Inr False, f\<lparr>bitarray := set_bits (bitarray f) (bit_indices (bits_per_slice f) 0 hs),
             count := count f + 1\<rparr>)" by blast
    let ?g = "snd (add H f key True)"
    have c: "count ?g = capacity f + 1" and k: "capacity ?g = capacity f"
      using a eq by simp_all
    then have "capacity ?g < count ?g" by simp
    from raised [OF this] a c k show ?thesis by simp
  qed
  have iff: "fst (add H f key skip_check) = Inl IndexError_at_capacity \<longleftrightarrow> capacity f < count f"
  proof
    assume "fst (add H f key skip_check) = Inl IndexError_at_capacity"
    then show "capacity f < count f" using other by blast
  next
    assume "capacity f < count f"
    from raised [OF this] show "fst (add H f key skip_check) = Inl IndexError_at_capacity"
      by simp
  qed
  show ?thesis
  proof (intro conjI impI)
    show "fst (add H f key skip_check) = Inl IndexError_at_capacity \<longleftrightarrow> capacity f < count f"
      by (rule iff)
  next
    assume "capacity f < count f"
    then show "add H f key skip_check = (Inl IndexError_at_capacity, f)" by (rule raised)
  qed (use one in blast)+
qed

theorem add_capacity_error_witness:
  "add (\<lambda>hf i key j. 0)
      \<lparr>error_rate = 1 / 2, num_slices = 1, bits_per_slice = 2, capacity = 1,
       count = 1, num_bits = 2, bitarray = [True, False]\<rparr> [] True
     = (Inr False,
        \<lparr>error_rate = 1 / 2, num_slices = 1, bits_per_slice = 2, capacity = 1,
         count = 2, num_bits = 2, bitarray = [True, False]\<rparr>)
   \<and> add (\<lambda>hf i key j. 0)
      \<lparr>error_rate = 1 / 2, num_slices = 1, bits_per_slice = 2, capacity = 1,
       count = 2, num_bits = 2, bitarray = [True, False]\<rparr> [] False
     = (Inl IndexError_at_capacity,
        \<lparr>error_rate = 1 / 2, num_slices = 1, bits_per_slice = 2, capacity = 1,
         count = 2, num_bits = 2, bitarray = [True, False]\<rparr>)"
proof -
  let ?H = "\<lambda>(hf :: hashfn) (i :: nat) (key :: bytes) (j :: nat). 0 :: byte"
  let ?g = "\<lparr>error_rate = 1 / 2, num_slices = 1, bits_per_slice = 2, capacity = 1,
       count = 1, num_bits = 2, bitarray = [True, False]\<rparr>"
  let ?h = "\<lparr>error_rate = 1 / 2, num_slices = 1, bits_per_slice = 2, capacity = 1,
       count = 2, num_bits = 2, bitarray = [True, False]\<rparr>"
  have hg: "make_hashes ?H ?g [] = Inr [0]"
    by (simp add: make_hashes_def make_hashfuncs_zero_Suc_0_2)
  have a: "add ?H ?g [] True = (Inr False, ?h)"
    using hg by (simp add: add_def set_bits_def)
  have pre: "count ?g = capacity ?g \<and> 0 < bits_per_slice ?g
        \<and> num_slices ?g * bits_per_slice ?g \<le> length (bitarray ?g)" by simp
  have "add ?H (snd (add ?H ?g [] True)) [] False
            = (Inl IndexError_at_capacity, snd (add ?H ?g [] True))"
    using add_capacity_error [of ?H ?g "[]" False "[]"] pre by blast
  then show ?thesis using a by simp
qed

subsection \<open>Bytes and bits\<close>

lemma le_bytes_length: "length (le_bytes n v) = n"
  by (induction n arbitrary: v) simp_all

lemma le_uint_le_bytes: "le_uint (le_bytes n v) = v mod 256 ^ n"
proof (induction n arbitrary: v)
  case 0
  then show ?case by simp
next
  case (Suc n)
  have "unat (of_nat (v mod 256) :: byte) = v mod 256"
    by (simp add: unat_of_nat)
  then have "le_uint (le_bytes (Suc n) v) = v mod 256 + 256 * ((v div 256) mod 256 ^ n)"
    using Suc.IH [of "v div 256"] by simp
  also have "\<dots> = v mod 256 ^ Suc n"
    by (simp add: mod_mult2_eq)
  finally show ?case .
qed

lemma le_uint_le_bytes_8: "v < 2 ^ 64 \<Longrightarrow> le_uint (le_bytes 8 v) = v"
proof -
  assume "v < 2 ^ 64"
  moreover have "(256::nat) ^ 8 = 2 ^ 64" by simp
  ultimately show ?thesis by (simp add: le_uint_le_bytes del: le_bytes.simps)
qed

lemma bits_to_byte_horner: "bits_to_byte xs = horner_sum of_bool 2 xs"
  by (induction xs) simp_all

lemma byte_to_bits_bits_to_byte:
  assumes "length xs \<le> 8"
  shows "byte_to_bits (bits_to_byte xs) = xs @ replicate (8 - length xs) False"
proof (rule nth_equalityI)
  show "length (byte_to_bits (bits_to_byte xs)) = length (xs @ replicate (8 - length xs) False)"
    using assms by (simp add: byte_to_bits_def)
next
  fix i
  assume "i < length (byte_to_bits (bits_to_byte xs))"
  then have i: "i < 8" by (simp add: byte_to_bits_def)
  have "byte_to_bits (bits_to_byte xs) ! i = bit (horner_sum of_bool 2 xs :: byte) i"
    using i by (simp add: byte_to_bits_def bits_to_byte_horner)
  also have "\<dots> = (i < length xs \<and> xs ! i)"
    using i assms by (simp add: bit_horner_sum_bit_word_iff)
  also have "\<dots> = (xs @ replicate (8 - length xs) False) ! i"
    using i assms by (simp add: nth_append)
  finally show "byte_to_bits (bits_to_byte xs) ! i = (xs @ replicate (8 - length xs) False) ! i" .
qed

lemma tobytes_Nil: "tobytes [] = []"
  by (simp add: tobytes_def)

lemma upt_0_Suc: "[0..<Suc m] = 0 # map Suc [0..<m]"
proof -
  have "[0..<Suc m] = 0 # [Suc 0..<Suc m]" by (rule upt_conv_Cons) simp
  then show ?thesis by (simp only: map_Suc_upt)
qed

lemma bytes_needed_step:
  assumes "0 < (n::nat)"
  shows "(n + 7) div 8 = Suc ((n - 8 + 7) div 8)"
proof (cases "n \<le> 8")
  case True
  have "(n + 7) div 8 = 1"
    by (rule Euclidean_Rings.div_nat_eqI) (use assms True in simp_all)
  with True show ?thesis by simp
next
  case False
  then have "n + 7 = (n - 8 + 7) + 8" by simp
  then have "(n + 7) div 8 = ((n - 8 + 7) + 8) div 8" by simp
  then show ?thesis by (simp only: div_add_self2)
qed

lemma tobytes_step:
  assumes "bits \<noteq> []"
  shows "tobytes bits = bits_to_byte (take 8 bits) # tobytes (drop 8 bits)"
proof -
  define m where "m = (length bits - 8 + 7) div 8"
  have "0 < length bits" using assms by simp
  then have n: "(length bits + 7) div 8 = Suc m"
    unfolding m_def by (rule bytes_needed_step)
  have l: "(length (drop 8 bits) + 7) div 8 = m"
    by (simp add: m_def)
  have "tobytes bits = map (\<lambda>j. bits_to_byte (take 8 (drop (8 * j) bits))) (0 # map Suc [0..<m])"
    unfolding tobytes_def n upt_0_Suc ..
  also have "\<dots> = bits_to_byte (take 8 bits)
      # map (\<lambda>j. bits_to_byte (take 8 (drop (8 * j) (drop 8 bits)))) [0..<m]"
    by (simp add: comp_def add.commute)
  also have "\<dots> = bits_to_byte (take 8 bits) # tobytes (drop 8 bits)"
    unfolding tobytes_def l ..
  finally show ?thesis .
qed

lemma frombytes_tobytes:
  "frombytes (tobytes bits) = bits @ replicate ((8 - length bits mod 8) mod 8) False"
proof (induction bits rule: length_induct)
  case (1 bits)
  show ?case
  proof (cases "bits = []")
    case True
    then show ?thesis by (simp add: tobytes_Nil frombytes_def)
  next
    case False
    have step: "frombytes (tobytes bits)
        = byte_to_bits (bits_to_byte (take 8 bits)) @ frombytes (tobytes (drop 8 bits))"
      using tobytes_step [OF False] by (simp add: frombytes_def)
    show ?thesis
    proof (cases "length bits \<le> 8")
      case True
      then have d: "drop 8 bits = []" and t: "take 8 bits = bits" by simp_all
      have pad: "(8 - length bits mod 8) mod 8 = 8 - length bits"
        using True False by (cases "length bits = 8") auto
      show ?thesis
        unfolding step d t tobytes_Nil
        using byte_to_bits_bits_to_byte [OF True] pad by (simp add: frombytes_def)
    next
      case False
      then have len: "length (take 8 bits) = 8" by simp
      have shorter: "length (drop 8 bits) < length bits" using False by simp
      have ih: "frombytes (tobytes (drop 8 bits))
          = drop 8 bits @ replicate ((8 - length (drop 8 bits) mod 8) mod 8) False"
        using 1 shorter by blast
      have m: "length (drop 8 bits) mod 8 = length bits mod 8"
        using False by (simp add: le_mod_geq)
      have "byte_to_bits (bits_to_byte (take 8 bits)) = take 8 bits"
        using byte_to_bits_bits_to_byte [of "take 8 bits"] len by simp
      then show ?thesis
        unfolding step ih m by simp
    qed
  qed
qed

subsection \<open>Reading back what \<open>tofile\<close> wrote\<close>

lemma frombytes_length: "length (frombytes bs) = 8 * length bs"
  by (induction bs) (simp_all add: frombytes_def byte_to_bits_def)

lemma pack_Q_ok: "0 \<le> v \<Longrightarrow> v < 2 ^ 64 \<Longrightarrow> pack_Q v = Inr (le_bytes 8 (nat v))"
  by (simp add: pack_Q_def)

lemma fromfile_fields:
  assumes "length E = 8" "length A = 8" "length B = 8" "length C = 8" "length D = 8"
    and "n = -1 \<or> n = int (length (E @ A @ B @ C @ D @ body))"
  shows "fromfile dec (E @ A @ B @ C @ D @ body) n =
     (if le_uint A * le_uint B \<noteq> 8 * length body
         \<and> le_uint A * le_uint B + (8 - le_uint A * le_uint B mod 8) \<noteq> 8 * length body
      then Inl ValueError_bit_length
      else Inr (BloomFilter_setup (dec E) (le_uint A) (le_uint B) (int (le_uint C))
                  (int (le_uint D)) (frombytes body)))"
proof -
  let ?f = "E @ A @ B @ C @ D @ body"
  have h: "take headerlen ?f = E @ A @ B @ C @ D"
    using assms(1-5) by (simp add: headerlen_def)
  have r: "drop headerlen ?f = body"
    using assms(1-5) by (simp add: headerlen_def)
  have n: "\<not> (0 < n \<and> n < int headerlen)"
    using assms by (auto simp: headerlen_def)
  have b: "(if n > 0 then take (nat (n - int headerlen)) body else body) = body"
    using assms by (auto simp: headerlen_def)
  have l: "length (E @ A @ B @ C @ D) = headerlen"
    using assms(1-5) by (simp add: headerlen_def)
  have f1: "take 8 (E @ A @ B @ C @ D) = E"
    and f2: "take 8 (drop 8 (E @ A @ B @ C @ D)) = A"
    and f3: "take 8 (drop 16 (E @ A @ B @ C @ D)) = B"
    and f4: "take 8 (drop 24 (E @ A @ B @ C @ D)) = C"
    and f5: "take 8 (drop 32 (E @ A @ B @ C @ D)) = D"
    using assms(1-5) by simp_all
  show ?thesis
    unfolding fromfile_def Let_def h r b f1 f2 f3 f4 f5
    using n l by (auto simp: BloomFilter_setup_def frombytes_length)
qed

lemma roundtrip:
  assumes "num_bits f = num_slices f * bits_per_slice f"
    and "length (bitarray f) = num_bits f"
    and "num_slices f < 2 ^ 64" and "bits_per_slice f < 2 ^ 64"
    and "0 \<le> capacity f" and "capacity f < 2 ^ 64"
    and "0 \<le> count f" and "count f < 2 ^ 64"
    and "dec (map (enc (error_rate f)) [0..<8]) = error_rate f"
  shows "\<exists>bs. tofile enc f = Inr bs
      \<and> fromfile dec bs (- 1)
           = Inr (f\<lparr>bitarray := bitarray f @ replicate ((8 - num_bits f mod 8) mod 8) False\<rparr>)
      \<and> fromfile dec bs (int (length bs))
           = Inr (f\<lparr>bitarray := bitarray f @ replicate ((8 - num_bits f mod 8) mod 8) False\<rparr>)"
proof -
  let ?E = "map (enc (error_rate f)) [0..<8]"
  let ?A = "le_bytes 8 (num_slices f)"
  let ?B = "le_bytes 8 (bits_per_slice f)"
  let ?C = "le_bytes 8 (nat (capacity f))"
  let ?D = "le_bytes 8 (nat (count f))"
  let ?body = "tobytes (bitarray f)"
  let ?bs = "?E @ ?A @ ?B @ ?C @ ?D @ ?body"
  let ?pad = "(8 - num_bits f mod 8) mod 8"
  have pa: "pack_Q (int (num_slices f)) = Inr ?A"
    using assms(3) pack_Q_ok [of "int (num_slices f)"] by (simp add: nat_int del: le_bytes.simps)
  have pb: "pack_Q (int (bits_per_slice f)) = Inr ?B"
    using assms(4) pack_Q_ok [of "int (bits_per_slice f)"] by (simp add: nat_int del: le_bytes.simps)
  have pc: "pack_Q (capacity f) = Inr ?C" using assms(5,6) by (rule pack_Q_ok)
  have pd: "pack_Q (count f) = Inr ?D" using assms(7,8) by (rule pack_Q_ok)
  have t: "tofile enc f = Inr ?bs"
    unfolding tofile_def pack_header_def pa pb pc pd by simp
  have ua: "le_uint ?A = num_slices f" using assms(3) by (rule le_uint_le_bytes_8)
  have ub: "le_uint ?B = bits_per_slice f" using assms(4) by (rule le_uint_le_bytes_8)
  have uc: "int (le_uint ?C) = capacity f"
    using assms(5,6) le_uint_le_bytes_8 [of "nat (capacity f)"] by (simp del: le_bytes.simps)
  have ud: "int (le_uint ?D) = count f"
    using assms(7,8) le_uint_le_bytes_8 [of "nat (count f)"] by (simp del: le_bytes.simps)
  have bits: "frombytes ?body = bitarray f @ replicate ?pad False"
    using frombytes_tobytes [of "bitarray f"] assms(2) by simp
  have len8: "8 * length ?body = num_bits f + ?pad"
    using frombytes_length [of ?body] bits assms(2) by simp
  have ok: "\<not> (num_bits f \<noteq> 8 * length ?body
         \<and> num_bits f + (8 - num_bits f mod 8) \<noteq> 8 * length ?body)"
  proof (cases "num_bits f mod 8 = 0")
    case True
    then show ?thesis using len8 by simp
  next
    case False
    then have "?pad = 8 - num_bits f mod 8" by simp
    then show ?thesis using len8 by simp
  qed
  have res: "BloomFilter_setup (error_rate f) (num_slices f) (bits_per_slice f) (capacity f)
        (count f) (bitarray f @ replicate ?pad False)
      = f\<lparr>bitarray := bitarray f @ replicate ?pad False\<rparr>"
    using assms(1) by (cases f) (simp add: BloomFilter_setup_def)
  have any: "fromfile dec ?bs n
      = Inr (f\<lparr>bitarray := bitarray f @ replicate ?pad False\<rparr>)"
    if "n = -1 \<or> n = int (length ?bs)" for n
    using fromfile_fields [of ?E ?A ?B ?C ?D n ?body dec, OF _ _ _ _ _ that] ok
    unfolding ua ub uc ud bits assms(9) res
    by (simp add: le_bytes_length assms(1) del: le_bytes.simps)
  show ?thesis using t any [of "- 1"] any [of "int (length ?bs)"] by simp
qed

subsection \<open>Serialisation claims\<close>

text \<open>
  Claim C6, as the code has it. Let a filter have a bit vector of
  \<open>num_bits = num_slices * bits_per_slice\<close> bits, fields that fit the unsigned 64-bit
  header, and an error rate that survives its eight-byte encoding. Then \<open>tofile\<close> succeeds
  and \<open>fromfile\<close> (reading to the end, or exactly the bytes written) returns a filter
  with the same \<open>error_rate\<close>, \<open>num_slices\<close>, \<open>bits_per_slice\<close>, \<open>capacity\<close> and \<open>count\<close>,
  whose bit vector is the original one followed by zero bits up to the next multiple of
  8. It is the original bit vector exactly when \<open>num_bits\<close> is a multiple of 8.
\<close>

theorem serialization_roundtrip:
  assumes "num_bits f = num_slices f * bits_per_slice f"
    and "length (bitarray f) = num_bits f"
    and "num_slices f < 2 ^ 64" and "bits_per_slice f < 2 ^ 64"
    and "0 \<le> capacity f" and "capacity f < 2 ^ 64"
    and "0 \<le> count f" and "count f < 2 ^ 64"
    and "dec (map (enc (error_rate f)) [0..<8]) = error_rate f"
  shows "\<exists>bs g. tofile enc f = Inr bs
      \<and> fromfile dec bs (- 1) = Inr g
      \<and> fromfile dec bs (int (length bs)) = Inr g
      \<and> error_rate g = error_rate f \<and> num_slices g = num_slices f
      \<and> bits_per_slice g = bits_per_slice f \<and> capacity g = capacity f
      \<and> count g = count f \<and> num_bits g = num_bits f
      \<and> bitarray g = bitarray f @ replicate ((8 - num_bits f mod 8) mod 8) False
      \<and> (bitarray g = bitarray f \<longleftrightarrow> num_bits f mod 8 = 0)"
proof -
  let ?g = "f\<lparr>bitarray := bitarray f @ replicate ((8 - num_bits f mod 8) mod 8) False\<rparr>"
  from roundtrip [where f = f and dec = dec and enc = enc, OF assms] obtain bs where bs: "tofile enc f = Inr bs"
    "fromfile dec bs (- 1) = Inr ?g" "fromfile dec bs (int (length bs)) = Inr ?g"
    by blast
  have "(bitarray ?g = bitarray f) = (num_bits f mod 8 = 0)"
  proof (cases "num_bits f mod 8 = 0")
    case True
    then show ?thesis by simp
  next
    case False
    then have "(8 - num_bits f mod 8) mod 8 \<noteq> 0" by presburger
    with False show ?thesis by simp
  qed
  with bs show ?thesis by (intro exI [of _ bs] exI [of _ ?g]) simp
qed

theorem serialization_roundtrip_witness:
  "\<exists>bs g. tofile (\<lambda>x j. 0)
        \<lparr>error_rate = 1 / 2, num_slices = 1, bits_per_slice = 2, capacity = 1,
         count = 1, num_bits = 2, bitarray = [True, False]\<rparr> = Inr bs
     \<and> fromfile (\<lambda>bs. 1 / 2) bs (- 1) = Inr g
     \<and> error_rate g = 1 / 2 \<and> num_slices g = 1 \<and> bits_per_slice g = 2
     \<and> capacity g = 1 \<and> count g = 1
     \<and> bitarray g = [True, False, False, False, False, False, False, False]"
proof -
  let ?f = "\<lparr>error_rate = 1 / 2, num_slices = 1, bits_per_slice = 2, capacity = 1,
         count = 1, num_bits = 2, bitarray = [True, False]\<rparr>"
  let ?enc = "\<lambda>(x :: real) (j :: nat). 0 :: byte"
  let ?dec = "\<lambda>bs :: bytes. 1 / 2 :: real"
  have h: "num_bits ?f = num_slices ?f * bits_per_slice ?f" "length (bitarray ?f) = num_bits ?f"
    "num_slices ?f < 2 ^ 64" "bits_per_slice ?f < 2 ^ 64" "0 \<le> capacity ?f"
    "capacity ?f < 2 ^ 64" "0 \<le> count ?f" "count ?f < 2 ^ 64"
    "?dec (map (?enc (error_rate ?f)) [0..<8]) = error_rate ?f"
    by simp_all
  have six: "(8 - num_bits ?f mod 8) mod 8 = Suc (Suc (Suc (Suc (Suc (Suc 0)))))"
    by simp
  have pad: "replicate ((8 - num_bits ?f mod 8) mod 8) False
      = [False, False, False, False, False, False]"
    unfolding six by simp
  from serialization_roundtrip [where f = ?f and dec = ?dec and enc = ?enc, OF h]
  obtain bs g where g: "tofile ?enc ?f = Inr bs \<and> fromfile ?dec bs (- 1) = Inr g
      \<and> fromfile ?dec bs (int (length bs)) = Inr g
      \<and> error_rate g = error_rate ?f \<and> num_slices g = num_slices ?f
      \<and> bits_per_slice g = bits_per_slice ?f \<and> capacity g = capacity ?f
      \<and> count g = count ?f \<and> num_bits g = num_bits ?f
      \<and> bitarray g = bitarray ?f @ replicate ((8 - num_bits ?f mod 8) mod 8) False
      \<and> (bitarray g = bitarray ?f \<longleftrightarrow> num_bits ?f mod 8 = 0)"
    by (elim exE)
  then have "bitarray g = [True, False, False, False, False, False, False, False]"
    unfolding pad by simp
  with g show ?thesis
    by (intro exI [of _ bs] exI [of _ g]) simp
qed

theorem serialization_not_identical:
  "\<exists>bs g. tofile (\<lambda>x j. 0)
        \<lparr>error_rate = 1 / 2, num_slices = 1, bits_per_slice = 2, capacity = 1,
         count = 1, num_bits = 2, bitarray = [True, False]\<rparr> = Inr bs
     \<and> fromfile (\<lambda>bs. 1 / 2) bs (- 1) = Inr g
     \<and> bitarray g \<noteq> bitarray \<lparr>error_rate = 1 / 2, num_slices = 1, bits_per_slice = 2,
         capacity = 1, count = 1, num_bits = 2, bitarray = [True, False]\<rparr>"
proof -
  let ?f = "\<lparr>error_rate = 1 / 2, num_slices = 1, bits_per_slice = 2, capacity = 1,
         count = 1, num_bits = 2, bitarray = [True, False]\<rparr>"
  let ?enc = "\<lambda>(x :: real) (j :: nat). 0 :: byte"
  let ?dec = "\<lambda>bs :: bytes. 1 / 2 :: real"
  have h: "num_bits ?f = num_slices ?f * bits_per_slice ?f" "length (bitarray ?f) = num_bits ?f"
    "num_slices ?f < 2 ^ 64" "bits_per_slice ?f < 2 ^ 64" "0 \<le> capacity ?f"
    "capacity ?f < 2 ^ 64" "0 \<le> count ?f" "count ?f < 2 ^ 64"
    "?dec (map (?enc (error_rate ?f)) [0..<8]) = error_rate ?f"
    by simp_all
  from roundtrip [where f = ?f and dec = ?dec and enc = ?enc, OF h]
  obtain bs where bs: "tofile ?enc ?f = Inr bs"
    "fromfile ?dec bs (- 1)
      = Inr (?f\<lparr>bitarray := bitarray ?f @ replicate ((8 - num_bits ?f mod 8) mod 8) False\<rparr>)"
    by blast
  have "bitarray (?f\<lparr>bitarray := bitarray ?f @ replicate ((8 - num_bits ?f mod 8) mod 8) False\<rparr>)
      \<noteq> bitarray ?f"
    by simp
  with bs show ?thesis by blast
qed

text \<open>
  Claim C7 at the input where the code departs from it. The header announces one slice
  of eight bits, so one byte of bit vector; two bytes follow. \<open>fromfile\<close> does not raise:
  for \<open>num_bits\<close> a multiple of 8 the tolerance \<open>num_bits + (8 - num_bits % 8)\<close> is a whole
  byte more, and the filter comes back with a bit vector of sixteen bits.
\<close>

theorem fromfile_accepts_extra_byte:
  "fromfile (\<lambda>bs. 1 / 2)
     ([0, 0, 0, 0, 0, 0, 0, 0] @ [1, 0, 0, 0, 0, 0, 0, 0] @ [8, 0, 0, 0, 0, 0, 0, 0]
        @ [1, 0, 0, 0, 0, 0, 0, 0] @ [0, 0, 0, 0, 0, 0, 0, 0] @ [0, 0]) (- 1)
   = Inr \<lparr>error_rate = 1 / 2, num_slices = 1, bits_per_slice = 8, capacity = 1, count = 0,
          num_bits = 8, bitarray = replicate 16 False\<rparr>"
proof -
  have z: "frombytes [0, 0] = replicate 16 False"
    by (simp add: frombytes_def byte_to_bits_def upt_rec_numeral numeral_eq_Suc)
  show ?thesis
    by (subst fromfile_fields) (simp_all add: BloomFilter_setup_def z)
qed

subsection \<open>The constructors\<close>

lemma individual_rate_cases:
  "individual_rate b m er =
     (if 1 \<le> er then Inl ValueError_math_domain
      else if b = 0 \<or> \<lceil>real_of_int m / real_of_int b\<rceil> = 0 then Inl ZeroDivisionError
      else Inr (1 - exp (ln (1 - er) / of_int \<lceil>real_of_int m / real_of_int b\<rceil>)))"
  by (auto simp: individual_rate_def math_log_def float_div_def)

text \<open>
  Claim C9, as the code has it. The \<open>BloomFilter\<close> constructor raises an
  invalid-parameter error exactly when the error rate is outside \<open>(0,1)\<close> or the capacity
  is not positive, and succeeds otherwise. The constructors of \<open>ScalableBloomFilter\<close> and
  \<open>DynamicBloomFilter\<close> check the error rate only, and only from below: each raises its
  invalid-parameter error exactly when the error rate is zero or negative. The scalable
  constructor then succeeds whatever the capacity is; the dynamic one checks no capacity
  either and fails only inside \<open>_setup\<close>: \<open>math.log\<close> rejects an error rate of 1 or more,
  and the division fails when \<open>base_capacity\<close> or \<open>ceil(max_capacity / base_capacity)\<close> is
  zero.
\<close>

theorem constructor_errors:
  "(BloomFilter_init cap er = Inl ValueError_error_rate) = (\<not> (0 < er \<and> er < 1))
   \<and> (BloomFilter_init cap er = Inl ValueError_capacity) = (0 < er \<and> er < 1 \<and> cap \<le> 0)
   \<and> (\<exists>f. BloomFilter_init cap er = Inr f) = (0 < er \<and> er < 1 \<and> 0 < cap)
   \<and> (ScalableBloomFilter_init cap er mode = Inl ValueError_sbf_error_rate) = (er \<le> 0)
   \<and> (\<exists>s. ScalableBloomFilter_init cap er mode = Inr s) = (0 < er)
   \<and> (DynamicBloomFilter_init cap max_cap er = Inl ValueError_dbf_error_rate) = (er \<le> 0)
   \<and> (DynamicBloomFilter_init cap max_cap er = Inl ValueError_math_domain) = (1 \<le> er)
   \<and> (DynamicBloomFilter_init cap max_cap er = Inl ZeroDivisionError)
       = (0 < er \<and> er < 1 \<and> (cap = 0 \<or> \<lceil>real_of_int max_cap / real_of_int cap\<rceil> = 0))
   \<and> (\<exists>d. DynamicBloomFilter_init cap max_cap er = Inr d)
       = (0 < er \<and> er < 1 \<and> cap \<noteq> 0 \<and> \<lceil>real_of_int max_cap / real_of_int cap\<rceil> \<noteq> 0)"
proof (intro conjI)
  show "(BloomFilter_init cap er = Inl ValueError_error_rate) = (\<not> (0 < er \<and> er < 1))"
    by (simp add: BloomFilter_init_def)
  show "(BloomFilter_init cap er = Inl ValueError_capacity) = (0 < er \<and> er < 1 \<and> cap \<le> 0)"
    by (auto simp: BloomFilter_init_def)
  show "(\<exists>f. BloomFilter_init cap er = Inr f) = (0 < er \<and> er < 1 \<and> 0 < cap)"
    by (auto simp: BloomFilter_init_def)
  show "(ScalableBloomFilter_init cap er mode = Inl ValueError_sbf_error_rate) = (er \<le> 0)"
    by (auto simp: ScalableBloomFilter_init_def)
  show "(\<exists>s. ScalableBloomFilter_init cap er mode = Inr s) = (0 < er)"
    by (auto simp: ScalableBloomFilter_init_def)
  show "(DynamicBloomFilter_init cap max_cap er = Inl ValueError_dbf_error_rate) = (er \<le> 0)"
    by (auto simp: DynamicBloomFilter_init_def individual_rate_cases)
  show "(DynamicBloomFilter_init cap max_cap er = Inl ValueError_math_domain) = (1 \<le> er)"
    by (auto simp: DynamicBloomFilter_init_def individual_rate_cases)
  show "(DynamicBloomFilter_init cap max_cap er = Inl ZeroDivisionError)
       = (0 < er \<and> er < 1 \<and> (cap = 0 \<or> \<lceil>real_of_int max_cap / real_of_int cap\<rceil> = 0))"
    by (auto simp: DynamicBloomFilter_init_def individual_rate_cases)
  show "(\<exists>d. DynamicBloomFilter_init cap max_cap er = Inr d)
       = (0 < er \<and> er < 1 \<and> cap \<noteq> 0 \<and> \<lceil>real_of_int max_cap / real_of_int cap\<rceil> \<noteq> 0)"
    by (auto simp: DynamicBloomFilter_init_def individual_rate_cases)
qed

theorem orchestrator_constructors_accept_bad_parameters:
  "ScalableBloomFilter_init 0 (1 / 2) 2
     = Inr \<lparr>scale = 2, ratio = 9 / 10, initial_capacity = 0, sbf_error_rate = 1 / 2,
            sbf_filters = []\<rparr>
   \<and> ScalableBloomFilter_init 100 2 2
     = Inr \<lparr>scale = 2, ratio = 9 / 10, initial_capacity = 100, sbf_error_rate = 2,
            sbf_filters = []\<rparr>
   \<and> (\<exists>d. DynamicBloomFilter_init (- 1) 10 (1 / 2) = Inr d)"
proof -
  have "\<lceil>real_of_int 10 / real_of_int (- 1)\<rceil> = - 10" by simp
  then have "\<exists>d. DynamicBloomFilter_init (- 1) 10 (1 / 2) = Inr d"
    by (simp add: DynamicBloomFilter_init_def individual_rate_cases)
  then show ?thesis by (simp add: ScalableBloomFilter_init_def)
qed

subsection \<open>Filters made by the constructor\<close>

lemma ln_2_bounds: "1 / 2 \<le> ln (2::real)" "ln (2::real) < 1"
proof -
  have "ln (1 / 2 :: real) \<le> 1 / 2 - 1" by (rule ln_le_minus_one) simp
  moreover have "ln (1 / 2 :: real) = - ln 2" by (simp add: ln_div)
  ultimately show "1 / 2 \<le> ln (2::real)" by simp
next
  have "1 + 1 + (1::real)\<^sup>2 / 2 \<le> exp 1"
    using exp_lower_Taylor_quadratic [of "1::real"] by simp
  then have "(2::real) < exp 1" by simp
  then have "\<not> exp (1::real) \<le> 2" by simp
  then have "\<not> 1 \<le> ln (2::real)" by (simp add: ln_ge_iff)
  then show "ln (2::real) < 1" by simp
qed

lemma solve_num_slices_pos:
  assumes "0 < er" "er < 1"
  shows "0 < solve_num_slices er"
proof -
  have "1 < 1 / er" and "0 < 1 / er" using assms by simp_all
  then have "0 < log 2 (1 / er)" using zero_less_log_cancel_iff [of 2 "1 / er"] by simp
  then have "0 < \<lceil>log 2 (1 / er)\<rceil>" by (simp add: less_ceiling_iff)
  then show ?thesis by (simp add: solve_num_slices_def)
qed

lemma solve_bits_per_slice_pos:
  assumes "0 < er" "er < 1" "0 < cap"
  shows "0 < solve_bits_per_slice cap er"
proof -
  have "ln er < 0" using assms by simp
  then have "0 < \<bar>ln er\<bar>" by simp
  moreover have "0 < real_of_int cap" using assms(3) by simp
  ultimately have a: "0 < real_of_int cap * \<bar>ln er\<bar>" by (rule mult_pos_pos [rotated])
  have "0 < ln (2::real)" by simp
  then have b: "0 < real (solve_num_slices er) * (ln 2)\<^sup>2"
    using solve_num_slices_pos [OF assms(1,2)] by simp
  have "0 < (real_of_int cap * \<bar>ln er\<bar>) / (real (solve_num_slices er) * (ln 2)\<^sup>2)"
    using a b by (rule divide_pos_pos)
  then have "0 < \<lceil>(real_of_int cap * \<bar>ln er\<bar>) / (real (solve_num_slices er) * (ln 2)\<^sup>2)\<rceil>"
    by (simp add: less_ceiling_iff)
  then show ?thesis by (simp add: solve_bits_per_slice_def)
qed

lemma solve_num_slices_half: "solve_num_slices (1 / 2) = 1"
  by (simp add: solve_num_slices_def)

lemma solve_bits_per_slice_half: "solve_bits_per_slice 1 (1 / 2) = 2"
proof -
  have l: "ln (1 / 2 :: real) = - ln 2" by (simp add: ln_div)
  have p: "0 < ln (2::real)" by simp
  have "(real_of_int 1 * \<bar>ln (1 / 2 :: real)\<bar>) / (real (solve_num_slices (1 / 2)) * (ln 2)\<^sup>2)
      = 1 / ln 2"
    using p unfolding solve_num_slices_half l by (simp add: power2_eq_square)
  moreover have "\<lceil>1 / ln (2::real)\<rceil> = 2"
  proof (rule ceiling_unique)
    show "real_of_int 2 - 1 < 1 / ln (2::real)"
      using ln_2_bounds(2) p by (simp add: less_divide_eq)
    show "1 / ln (2::real) \<le> real_of_int 2"
      using ln_2_bounds(1) p by (simp add: divide_le_eq)
  qed
  ultimately show ?thesis by (simp add: solve_bits_per_slice_def)
qed

lemma BloomFilter_init_1_half:
  "BloomFilter_init 1 (1 / 2)
     = Inr \<lparr>error_rate = 1 / 2, num_slices = 1, bits_per_slice = 2, capacity = 1, count = 0,
            num_bits = 2, bitarray = [False, False]\<rparr>"
  unfolding BloomFilter_init_def solve_num_slices_half solve_bits_per_slice_half
  by (simp add: BloomFilter_setup_def numeral_2_eq_2)

lemma constructedD:
  assumes "constructed f"
  shows "0 < error_rate f" "error_rate f < 1" "0 < capacity f"
    "num_slices f = solve_num_slices (error_rate f)"
    "bits_per_slice f = solve_bits_per_slice (capacity f) (error_rate f)"
    "num_bits f = num_slices f * bits_per_slice f"
    "length (bitarray f) = num_bits f"
    "0 < num_slices f" "0 < bits_per_slice f"
proof -
  let ?g = "f\<lparr>count := 0, bitarray := replicate (num_bits f) False\<rparr>"
  have i: "BloomFilter_init (capacity f) (error_rate f) = Inr ?g"
    and l: "length (bitarray f) = num_bits f"
    using assms by (simp_all add: constructed_def)
  show er: "0 < error_rate f" "error_rate f < 1" and cap: "0 < capacity f"
    using i by (auto simp: BloomFilter_init_def split: if_splits)
  have "?g = BloomFilter_setup (error_rate f) (solve_num_slices (error_rate f))
      (solve_bits_per_slice (capacity f) (error_rate f)) (capacity f) 0
      (replicate (solve_num_slices (error_rate f)
         * solve_bits_per_slice (capacity f) (error_rate f)) False)"
    using i er cap by (simp add: BloomFilter_init_def)
  then have "num_slices ?g = solve_num_slices (error_rate f)"
    "bits_per_slice ?g = solve_bits_per_slice (capacity f) (error_rate f)"
    "num_bits ?g = solve_num_slices (error_rate f)
         * solve_bits_per_slice (capacity f) (error_rate f)"
    by (simp_all add: BloomFilter_setup_def)
  then show ns: "num_slices f = solve_num_slices (error_rate f)"
    and bps: "bits_per_slice f = solve_bits_per_slice (capacity f) (error_rate f)"
    and "num_bits f = num_slices f * bits_per_slice f"
    by simp_all
  show "length (bitarray f) = num_bits f" by (rule l)
  show "0 < num_slices f" unfolding ns using er by (rule solve_num_slices_pos)
  show "0 < bits_per_slice f" unfolding bps using er cap by (rule solve_bits_per_slice_pos)
qed

lemma copy_constructed: "constructed f \<Longrightarrow> copy f = Inr f"
  by (simp add: constructed_def copy_def)


lemma BloomFilter_init_constructed:
  "BloomFilter_init cap er = Inr f \<Longrightarrow> constructed f"
  by (auto simp: constructed_def BloomFilter_init_def BloomFilter_setup_def split: if_splits)

subsection \<open>Union and intersection of two filters\<close>

lemma estimate_count_eq:
  "(case estimate_count k bits of Inr c \<Rightarrow> c | Inl e \<Rightarrow> int (length bits))
     = cardinality_estimate (bitarray_count bits) (length bits) k"
  by (auto simp: estimate_count_def cardinality_estimate_def math_log_def float_div_def
      split: sum.splits)

lemma recount_eq:
  "recount nb = nb\<lparr>count := cardinality_estimate (bitarray_count (bitarray nb))
      (length (bitarray nb)) (num_slices nb)\<rparr>"
  using estimate_count_eq [where k = "num_slices nb" and bits = "bitarray nb"]
  by (simp add: recount_def split: sum.splits)

lemma union_constructed:
  assumes "constructed a" "constructed b"
    and "capacity a = capacity b" "error_rate a = error_rate b"
  shows "BloomFilter_union a b
      = Inr (a\<lparr>bitarray := map2 (\<or>) (bitarray a) (bitarray b),
              count := cardinality_estimate
                (bitarray_count (map2 (\<or>) (bitarray a) (bitarray b))) (num_bits a)
                (num_slices a)\<rparr>)"
    and "BloomFilter_intersection a b
      = Inr (a\<lparr>bitarray := map2 (\<and>) (bitarray a) (bitarray b),
              count := cardinality_estimate
                (bitarray_count (map2 (\<and>) (bitarray a) (bitarray b))) (num_bits a)
                (num_slices a)\<rparr>)"
proof -
  have nb: "num_bits a = num_bits b"
    using constructedD(4,5,6) [OF assms(1)] constructedD(4,5,6) [OF assms(2)] assms(3,4)
    by simp
  have len: "length (bitarray a) = num_bits a" "length (bitarray b) = num_bits a"
    using constructedD(7) [OF assms(1)] constructedD(7) [OF assms(2)] nb by simp_all
  show "BloomFilter_union a b
      = Inr (a\<lparr>bitarray := map2 (\<or>) (bitarray a) (bitarray b),
              count := cardinality_estimate
                (bitarray_count (map2 (\<or>) (bitarray a) (bitarray b))) (num_bits a)
                (num_slices a)\<rparr>)"
    using assms(3,4) len
    by (simp add: BloomFilter_union_def copy_constructed [OF assms(1)] bitarray_or_def
        recount_eq)
  show "BloomFilter_intersection a b
      = Inr (a\<lparr>bitarray := map2 (\<and>) (bitarray a) (bitarray b),
              count := cardinality_estimate
                (bitarray_count (map2 (\<and>) (bitarray a) (bitarray b))) (num_bits a)
                (num_slices a)\<rparr>)"
    using assms(3,4) len
    by (simp add: BloomFilter_intersection_def copy_constructed [OF assms(1)] bitarray_and_def
        recount_eq)
qed

lemma union_mismatch:
  "capacity a \<noteq> capacity b \<or> error_rate a \<noteq> error_rate b \<Longrightarrow>
   BloomFilter_union a b = Inl ValueError_union
   \<and> BloomFilter_intersection a b = Inl ValueError_intersection"
  by (auto simp: BloomFilter_union_def BloomFilter_intersection_def)

text \<open>
  Claim C2, as the code has it. For two filters as the constructor and \<open>add\<close> leave them
  (a bit vector of \<open>num_bits\<close> bits) with the same capacity and error rate, \<open>union\<close>
  returns a new filter whose bit vector is the bitwise OR of the operands' bit vectors, and \<open>intersection\<close> one whose bit vector is their bitwise
  AND; the other parameters are those of \<open>self\<close>, and \<open>count\<close> is the integer value of
  \<open>ln(1 - set_bits/total_bits) / (num_slices * ln(1 - 1/total_bits))\<close>, or \<open>total_bits\<close>
  where that formula is undefined. If the capacities or the error rates differ, both
  raise their mismatched-parameters error. Floats are idealised as reals.
\<close>

theorem union_intersection_bits_and_count:
  assumes "constructed a" and "constructed b"
  shows "(capacity a \<noteq> capacity b \<or> error_rate a \<noteq> error_rate b \<longrightarrow>
            BloomFilter_union a b = Inl ValueError_union
          \<and> BloomFilter_intersection a b = Inl ValueError_intersection)
      \<and> (capacity a = capacity b \<and> error_rate a = error_rate b \<longrightarrow>
            BloomFilter_union a b
              = Inr (a\<lparr>bitarray := map2 (\<or>) (bitarray a) (bitarray b),
                      count := cardinality_estimate
                        (bitarray_count (map2 (\<or>) (bitarray a) (bitarray b))) (num_bits a)
                        (num_slices a)\<rparr>)
          \<and> BloomFilter_intersection a b
              = Inr (a\<lparr>bitarray := map2 (\<and>) (bitarray a) (bitarray b),
                      count := cardinality_estimate
                        (bitarray_count (map2 (\<and>) (bitarray a) (bitarray b))) (num_bits a)
                        (num_slices a)\<rparr>)
          \<and> length (map2 (\<or>) (bitarray a) (bitarray b)) = num_bits a
          \<and> length (map2 (\<and>) (bitarray a) (bitarray b)) = num_bits a)"
proof (intro conjI impI)
  assume "capacity a \<noteq> capacity b \<or> error_rate a \<noteq> error_rate b"
  from union_mismatch [OF this]
  show "BloomFilter_union a b = Inl ValueError_union"
    and "BloomFilter_intersection a b = Inl ValueError_intersection"
    by simp_all
next
  assume eq: "capacity a = capacity b \<and> error_rate a = error_rate b"
  then have c: "capacity a = capacity b" and e: "error_rate a = error_rate b" by simp_all
  show "BloomFilter_union a b
      = Inr (a\<lparr>bitarray := map2 (\<or>) (bitarray a) (bitarray b),
              count := cardinality_estimate
                (bitarray_count (map2 (\<or>) (bitarray a) (bitarray b))) (num_bits a)
                (num_slices a)\<rparr>)"
    using assms c e by (rule union_constructed(1))
  show "BloomFilter_intersection a b
      = Inr (a\<lparr>bitarray := map2 (\<and>) (bitarray a) (bitarray b),
              count := cardinality_estimate
                (bitarray_count (map2 (\<and>) (bitarray a) (bitarray b))) (num_bits a)
                (num_slices a)\<rparr>)"
    using assms c e by (rule union_constructed(2))
  have nb: "num_bits a = num_bits b"
    using constructedD(4,5,6) [OF assms(1)] constructedD(4,5,6) [OF assms(2)] c e by simp
  show "length (map2 (\<or>) (bitarray a) (bitarray b)) = num_bits a"
    and "length (map2 (\<and>) (bitarray a) (bitarray b)) = num_bits a"
    using constructedD(7) [OF assms(1)] constructedD(7) [OF assms(2)] nb by simp_all
qed

lemma constructed_1_half:
  "length bits = 2 \<Longrightarrow>
   constructed \<lparr>error_rate = 1 / 2, num_slices = 1, bits_per_slice = 2, capacity = 1,
     count = c, num_bits = 2, bitarray = bits\<rparr>"
  by (simp add: constructed_def BloomFilter_init_1_half numeral_2_eq_2)

lemma cardinality_estimate_full: "cardinality_estimate 2 2 1 = 2"
  by (simp add: cardinality_estimate_def)

lemma cardinality_estimate_empty: "cardinality_estimate 0 2 1 = 0"
proof -
  have "ln (1 / 2 :: real) \<noteq> 0" by (simp add: ln_div)
  then show ?thesis by (simp add: cardinality_estimate_def py_int_def)
qed

theorem union_intersection_bits_and_count_witness:
  "constructed \<lparr>error_rate = 1 / 2, num_slices = 1, bits_per_slice = 2, capacity = 1,
       count = 1, num_bits = 2, bitarray = [True, False]\<rparr>
   \<and> constructed \<lparr>error_rate = 1 / 2, num_slices = 1, bits_per_slice = 2, capacity = 1,
       count = 1, num_bits = 2, bitarray = [False, True]\<rparr>
   \<and> BloomFilter_union
        \<lparr>error_rate = 1 / 2, num_slices = 1, bits_per_slice = 2, capacity = 1,
         count = 1, num_bits = 2, bitarray = [True, False]\<rparr>
        \<lparr>error_rate = 1 / 2, num_slices = 1, bits_per_slice = 2, capacity = 1,
         count = 1, num_bits = 2, bitarray = [False, True]\<rparr>
      = Inr \<lparr>error_rate = 1 / 2, num_slices = 1, bits_per_slice = 2, capacity = 1,
         count = 2, num_bits = 2, bitarray = [True, True]\<rparr>
   \<and> BloomFilter_intersection
        \<lparr>error_rate = 1 / 2, num_slices = 1, bits_per_slice = 2, capacity = 1,
         count = 1, num_bits = 2, bitarray = [True, False]\<rparr>
        \<lparr>error_rate = 1 / 2, num_slices = 1, bits_per_slice = 2, capacity = 1,
         count = 1, num_bits = 2, bitarray = [False, True]\<rparr>
      = Inr \<lparr>error_rate = 1 / 2, num_slices = 1, bits_per_slice = 2, capacity = 1,
         count = 0, num_bits = 2, bitarray = [False, False]\<rparr>"
proof -
  let ?a = "\<lparr>error_rate = 1 / 2, num_slices = 1, bits_per_slice = 2, capacity = 1,
       count = 1, num_bits = 2, bitarray = [True, False]\<rparr>"
  let ?b = "\<lparr>error_rate = 1 / 2, num_slices = 1, bits_per_slice = 2, capacity = 1,
       count = 1, num_bits = 2, bitarray = [False, True]\<rparr>"
  have ca: "constructed ?a" and cb: "constructed ?b"
    by (rule constructed_1_half, simp)+
  have s1: "bitarray_count [True, True] = 2" and s0: "bitarray_count [False, False] = 0"
    by (simp_all add: bitarray_count_def)
  from union_intersection_bits_and_count [OF ca cb]
  have "BloomFilter_union ?a ?b
      = Inr (?a\<lparr>bitarray := map2 (\<or>) (bitarray ?a) (bitarray ?b),
              count := cardinality_estimate
                (bitarray_count (map2 (\<or>) (bitarray ?a) (bitarray ?b))) (num_bits ?a)
                (num_slices ?a)\<rparr>)"
    and "BloomFilter_intersection ?a ?b
      = Inr (?a\<lparr>bitarray := map2 (\<and>) (bitarray ?a) (bitarray ?b),
              count := cardinality_estimate
                (bitarray_count (map2 (\<and>) (bitarray ?a) (bitarray ?b))) (num_bits ?a)
                (num_slices ?a)\<rparr>)"
    by simp_all
  then have "BloomFilter_union ?a ?b
      = Inr \<lparr>error_rate = 1 / 2, num_slices = 1, bits_per_slice = 2, capacity = 1,
         count = 2, num_bits = 2, bitarray = [True, True]\<rparr>"
    and "BloomFilter_intersection ?a ?b
      = Inr \<lparr>error_rate = 1 / 2, num_slices = 1, bits_per_slice = 2, capacity = 1,
         count = 0, num_bits = 2, bitarray = [False, False]\<rparr>"
    using cardinality_estimate_full cardinality_estimate_empty
    by (simp_all add: s1 s0)
  with ca cb show ?thesis by simp
qed

text \<open>
  Without that hypothesis the operation can fail. The filter below is read back by
  \<open>fromfile\<close> from what \<open>tofile\<close> wrote for a filter of two bits, so its bit vector has
  eight; the two have the same capacity and error rate, and \<open>|\<close> and \<open>&\<close> of bitarray raise
  their length error.
\<close>

theorem union_of_deserialized_filter_raises:
  "(\<exists>bs. tofile (\<lambda>x j. 0)
        \<lparr>error_rate = 1 / 2, num_slices = 1, bits_per_slice = 2, capacity = 1,
         count = 1, num_bits = 2, bitarray = [True, False]\<rparr> = Inr bs
      \<and> fromfile (\<lambda>bs. 1 / 2) bs (- 1)
          = Inr \<lparr>error_rate = 1 / 2, num_slices = 1, bits_per_slice = 2, capacity = 1,
                 count = 1, num_bits = 2,
                 bitarray = [True, False, False, False, False, False, False, False]\<rparr>)
   \<and> BloomFilter_union
        \<lparr>error_rate = 1 / 2, num_slices = 1, bits_per_slice = 2, capacity = 1,
         count = 1, num_bits = 2, bitarray = [True, False]\<rparr>
        \<lparr>error_rate = 1 / 2, num_slices = 1, bits_per_slice = 2, capacity = 1,
         count = 1, num_bits = 2,
         bitarray = [True, False, False, False, False, False, False, False]\<rparr>
      = Inl ValueError_bitarray_length
   \<and> BloomFilter_intersection
        \<lparr>error_rate = 1 / 2, num_slices = 1, bits_per_slice = 2, capacity = 1,
         count = 1, num_bits = 2, bitarray = [True, False]\<rparr>
        \<lparr>error_rate = 1 / 2, num_slices = 1, bits_per_slice = 2, capacity = 1,
         count = 1, num_bits = 2,
         bitarray = [True, False, False, False, False, False, False, False]\<rparr>
      = Inl ValueError_bitarray_length"
proof -
  let ?f = "\<lparr>error_rate = 1 / 2, num_slices = 1, bits_per_slice = 2, capacity = 1,
         count = 1, num_bits = 2, bitarray = [True, False]\<rparr>"
  let ?g = "\<lparr>error_rate = 1 / 2, num_slices = 1, bits_per_slice = 2, capacity = 1,
         count = 1, num_bits = 2,
         bitarray = [True, False, False, False, False, False, False, False]\<rparr>"
  let ?enc = "\<lambda>(x :: real) (j :: nat). 0 :: byte"
  let ?dec = "\<lambda>bs :: bytes. 1 / 2 :: real"
  have h: "num_bits ?f = num_slices ?f * bits_per_slice ?f" "length (bitarray ?f) = num_bits ?f"
    "num_slices ?f < 2 ^ 64" "bits_per_slice ?f < 2 ^ 64" "0 \<le> capacity ?f"
    "capacity ?f < 2 ^ 64" "0 \<le> count ?f" "count ?f < 2 ^ 64"
    "?dec (map (?enc (error_rate ?f)) [0..<8]) = error_rate ?f"
    by simp_all
  have six: "(8 - num_bits ?f mod 8) mod 8 = Suc (Suc (Suc (Suc (Suc (Suc 0)))))"
    by simp
  have image: "?f\<lparr>bitarray := bitarray ?f @ replicate ((8 - num_bits ?f mod 8) mod 8) False\<rparr> = ?g"
    unfolding six by simp
  from roundtrip [where f = ?f and dec = ?dec and enc = ?enc, OF h]
  have img: "\<exists>bs. tofile ?enc ?f = Inr bs \<and> fromfile ?dec bs (- 1) = Inr ?g"
    unfolding image by blast
  have c: "copy ?f = Inr ?f"
    by (rule copy_constructed, rule constructed_1_half) simp
  have u: "BloomFilter_union ?f ?g = Inl ValueError_bitarray_length"
    unfolding BloomFilter_union_def c by (simp add: bitarray_or_def)
  have i: "BloomFilter_intersection ?f ?g = Inl ValueError_bitarray_length"
    unfolding BloomFilter_intersection_def c by (simp add: bitarray_and_def)
  from img u i show ?thesis by (intro conjI)
qed

subsection \<open>Insertion into a \<open>ScalableBloomFilter\<close>\<close>


lemma constructed_add_skip:
  assumes "constructed f" "count f \<le> capacity f"
  shows "\<exists>bits. length bits = num_bits f
     \<and> add H f key True = (Inr False, f\<lparr>bitarray := bits, count := count f + 1\<rparr>)"
proof -
  have len: "num_slices f * bits_per_slice f \<le> length (bitarray f)"
    using constructedD(6,7) [OF assms(1)] by simp
  from add_characterisation [OF constructedD(9) [OF assms(1)] len assms(2), of H key]
  obtain hs where "add H f key True =
          (Inr False, f\<lparr>bitarray := set_bits (bitarray f) (bit_indices (bits_per_slice f) 0 hs),
             count := count f + 1\<rparr>)" by blast
  moreover have "length (set_bits (bitarray f) (bit_indices (bits_per_slice f) 0 hs)) = num_bits f"
    using constructedD(7) [OF assms(1)] by (simp add: set_bits_length)
  ultimately show ?thesis by blast
qed




lemma add_to_last_new:
  assumes "BloomFilter_init cap er = Inr flt"
  shows "\<exists>bits. length bits = num_bits flt
     \<and> add_to_last H (fs @ [flt]) key = (Inr False, fs @ [flt\<lparr>bitarray := bits, count := 1\<rparr>])
     \<and> capacity flt = cap \<and> error_rate flt = er"
proof -
  have c: "constructed flt" using assms by (rule BloomFilter_init_constructed)
  have f: "count flt = 0" "capacity flt = cap" "error_rate flt = er" "0 < cap"
    using assms by (auto simp: BloomFilter_init_def BloomFilter_setup_def split: if_splits)
  then have "count flt \<le> capacity flt" by simp
  from constructed_add_skip [OF c this, of H key] f
  show ?thesis by (auto simp: add_to_last_def)
qed

lemma add_to_last_old:
  assumes "fs \<noteq> []" "constructed (last fs)" "count (last fs) < capacity (last fs)"
  shows "\<exists>bits. length bits = num_bits (last fs)
     \<and> add_to_last H fs key
         = (Inr False, butlast fs @ [(last fs)\<lparr>bitarray := bits, count := count (last fs) + 1\<rparr>])"
proof -
  have "count (last fs) \<le> capacity (last fs)" using assms(3) by simp
  from constructed_add_skip [OF assms(2) this, of H key]
  show ?thesis by (auto simp: add_to_last_def)
qed








subsection \<open>A hasher that depends on the key\<close>






subsection \<open>Union and intersection of two \<open>DynamicBloomFilter\<close>s\<close>






lemma intersection_loop_Nil: "intersection_loop base ier [] others = Inr []"
  by simp




lemma DynamicBloomFilter_init_1_1_half:
  "DynamicBloomFilter_init 1 1 (1 / 2)
     = Inr \<lparr>individual_error_rate = 1 / 2, max_error_rate = 1 / 2, max_capacity = 1,
            base_capacity = 1, dbf_filters = []\<rparr>"
  by (simp add: DynamicBloomFilter_init_def individual_rate_cases)

lemma DynamicBloomFilter_init_1_2_three_quarters:
  "DynamicBloomFilter_init 1 2 (3 / 4)
     = Inr \<lparr>individual_error_rate = 1 / 2, max_error_rate = 3 / 4, max_capacity = 2,
            base_capacity = 1, dbf_filters = []\<rparr>"
proof -
  have "ln (1 / 4 :: real) = ln ((1 / 2)\<^sup>2)" by (simp add: power2_eq_square)
  also have "\<dots> = 2 * ln (1 / 2 :: real)" by (simp only: ln_realpow)
  finally have "exp (ln (1 / 4 :: real) / 2) = 1 / 2" by simp
  moreover have "1 - (3 / 4 :: real) = 1 / 4" by simp
  ultimately have "individual_rate 1 2 (3 / 4) = Inr (1 / 2)"
    by (simp add: individual_rate_cases)
  then show ?thesis by (simp add: DynamicBloomFilter_init_def)
qed


lemma fold_other_fresh:
  "count bloom = 0 \<Longrightarrow> count bloom_filter \<noteq> 0 \<Longrightarrow> count other_filter \<noteq> 0 \<Longrightarrow>
   fold_other bloom bloom_filter [other_filter] = other_filter"
  by (simp add: py_or_def py_and_def truthy_def)

text \<open>
  Claim C3 at an input where the code departs from it. \<open>self\<close> owns one sub-filter with
  bits \<open>[True, False]\<close>, \<open>other\<close> one with bits \<open>[False, True]\<close>, both with count 1. The fold
  the claim describes ORs into the fresh accumulator the AND of the two, which has no bit
  set. The code writes \<open>bloom or (bloom_filter and other_filter)\<close>: the fresh filter is
  false (its count is 0), \<open>bloom_filter\<close> is true, so the result of the fold is
  \<open>other_filter\<close> itself, and the intersection owns the sub-filter of \<open>other\<close>, bits
  \<open>[False, True]\<close> and count 1.
\<close>

theorem dynamic_intersection_selects_operand:
  "DynamicBloomFilter_intersection
      \<lparr>individual_error_rate = 1 / 2, max_error_rate = 1 / 2, max_capacity = 1,
       base_capacity = 1,
       dbf_filters = [\<lparr>error_rate = 1 / 2, num_slices = 1, bits_per_slice = 2, capacity = 1,
                       count = 1, num_bits = 2, bitarray = [True, False]\<rparr>]\<rparr>
      \<lparr>individual_error_rate = 1 / 2, max_error_rate = 1 / 2, max_capacity = 1,
       base_capacity = 1,
       dbf_filters = [\<lparr>error_rate = 1 / 2, num_slices = 1, bits_per_slice = 2, capacity = 1,
                       count = 1, num_bits = 2, bitarray = [False, True]\<rparr>]\<rparr>
    = Inr \<lparr>individual_error_rate = 1 / 2, max_error_rate = 1 / 2, max_capacity = 1,
       base_capacity = 1,
       dbf_filters = [\<lparr>error_rate = 1 / 2, num_slices = 1, bits_per_slice = 2, capacity = 1,
                       count = 1, num_bits = 2, bitarray = [False, True]\<rparr>]\<rparr>
   \<and> spec_fold_other
        \<lparr>error_rate = 1 / 2, num_slices = 1, bits_per_slice = 2, capacity = 1,
         count = 0, num_bits = 2, bitarray = [False, False]\<rparr>
        \<lparr>error_rate = 1 / 2, num_slices = 1, bits_per_slice = 2, capacity = 1,
         count = 1, num_bits = 2, bitarray = [True, False]\<rparr>
        [\<lparr>error_rate = 1 / 2, num_slices = 1, bits_per_slice = 2, capacity = 1,
          count = 1, num_bits = 2, bitarray = [False, True]\<rparr>]
    = Inr \<lparr>error_rate = 1 / 2, num_slices = 1, bits_per_slice = 2, capacity = 1,
         count = 0, num_bits = 2, bitarray = [False, False]\<rparr>"
proof -
  let ?F = "\<lparr>error_rate = 1 / 2, num_slices = 1, bits_per_slice = 2, capacity = 1,
             count = 0, num_bits = 2, bitarray = [False, False]\<rparr>"
  let ?A = "\<lparr>error_rate = 1 / 2, num_slices = 1, bits_per_slice = 2, capacity = 1,
             count = 1, num_bits = 2, bitarray = [True, False]\<rparr>"
  let ?B = "\<lparr>error_rate = 1 / 2, num_slices = 1, bits_per_slice = 2, capacity = 1,
             count = 1, num_bits = 2, bitarray = [False, True]\<rparr>"
  have cF: "constructed ?F" and cA: "constructed ?A" and cB: "constructed ?B"
    by (rule constructed_1_half, simp)+
  have s0: "bitarray_count [False, False] = 0" by (simp add: bitarray_count_def)
  have i: "BloomFilter_intersection ?A ?B = Inr ?F"
    using union_constructed(2) [OF cA cB] cardinality_estimate_empty by (simp add: s0)
  have u: "BloomFilter_union ?F ?F = Inr ?F"
    using union_constructed(1) [OF cF cF] cardinality_estimate_empty by (simp add: s0)
  have spec: "spec_fold_other ?F ?A [?B] = Inr ?F"
    unfolding spec_fold_other.simps i sum.case u by simp
  have code: "intersection_loop 1 (1 / 2) [?A] [?B] = Inr [?B]"
    by (simp add: BloomFilter_init_1_half py_or_def py_and_def truthy_def)
  have "DynamicBloomFilter_intersection
      \<lparr>individual_error_rate = 1 / 2, max_error_rate = 1 / 2, max_capacity = 1,
       base_capacity = 1, dbf_filters = [?A]\<rparr>
      \<lparr>individual_error_rate = 1 / 2, max_error_rate = 1 / 2, max_capacity = 1,
       base_capacity = 1, dbf_filters = [?B]\<rparr>
    = Inr \<lparr>individual_error_rate = 1 / 2, max_error_rate = 1 / 2, max_capacity = 1,
       base_capacity = 1, dbf_filters = [?B]\<rparr>"
    using DynamicBloomFilter_init_1_1_half code
    by (simp add: DynamicBloomFilter_intersection_def)
  with spec show ?thesis by simp
qed

subsection \<open>The code-level facts at concrete inputs, restated\<close>

theorem dynamic_intersection_selects_operand_witness:
  "\<exists>r. DynamicBloomFilter_intersection
      \<lparr>individual_error_rate = 1 / 2, max_error_rate = 1 / 2, max_capacity = 1,
       base_capacity = 1,
       dbf_filters = [\<lparr>error_rate = 1 / 2, num_slices = 1, bits_per_slice = 2, capacity = 1,
                       count = 1, num_bits = 2, bitarray = [True, False]\<rparr>]\<rparr>
      \<lparr>individual_error_rate = 1 / 2, max_error_rate = 1 / 2, max_capacity = 1,
       base_capacity = 1,
       dbf_filters = [\<lparr>error_rate = 1 / 2, num_slices = 1, bits_per_slice = 2, capacity = 1,
                       count = 1, num_bits = 2, bitarray = [False, True]\<rparr>]\<rparr> = Inr r
     \<and> map bitarray (dbf_filters r) = [[False, True]]
     \<and> map count (dbf_filters r) = [1]"
  using dynamic_intersection_selects_operand by simp

theorem fromfile_accepts_extra_byte_witness:
  "\<exists>g. fromfile (\<lambda>bs. 1 / 2)
     ([0, 0, 0, 0, 0, 0, 0, 0] @ [1, 0, 0, 0, 0, 0, 0, 0] @ [8, 0, 0, 0, 0, 0, 0, 0]
        @ [1, 0, 0, 0, 0, 0, 0, 0] @ [0, 0, 0, 0, 0, 0, 0, 0] @ [0, 0]) (- 1) = Inr g
     \<and> num_bits g = 8 \<and> length (bitarray g) = 16"
  using fromfile_accepts_extra_byte by simp

theorem constructor_errors_witness:
  "(\<exists>f. BloomFilter_init 100 (1 / 1000) = Inr f)
   \<and> BloomFilter_init 0 (1 / 1000) = Inl ValueError_capacity
   \<and> BloomFilter_init 100 1 = Inl ValueError_error_rate
   \<and> (\<exists>s. ScalableBloomFilter_init 0 (1 / 1000) 2 = Inr s)
   \<and> ScalableBloomFilter_init 100 0 2 = Inl ValueError_sbf_error_rate
   \<and> DynamicBloomFilter_init 100 1000000 1 = Inl ValueError_math_domain
   \<and> DynamicBloomFilter_init 0 1000000 (1 / 1000) = Inl ZeroDivisionError"
proof -
  note c = constructor_errors
  have "\<exists>f. BloomFilter_init 100 (1 / 1000) = Inr f"
    using c [of 100 "1 / 1000"] by simp
  moreover have "BloomFilter_init 0 (1 / 1000) = Inl ValueError_capacity"
    using c [of 0 "1 / 1000"] by simp
  moreover have "BloomFilter_init 100 1 = Inl ValueError_error_rate"
    using c [of 100 1] by simp
  moreover have "\<exists>s. ScalableBloomFilter_init 0 (1 / 1000) 2 = Inr s"
    using c [of 0 "1 / 1000" 2] by simp
  moreover have "ScalableBloomFilter_init 100 0 2 = Inl ValueError_sbf_error_rate"
    using c [of 100 0 2] by simp
  moreover have "DynamicBloomFilter_init 100 1000000 1 = Inl ValueError_math_domain"
    using c [of 100 1 _ 1000000] by simp
  moreover have "DynamicBloomFilter_init 0 1000000 (1 / 1000) = Inl ZeroDivisionError"
    using c [of 0 "1 / 1000" _ 1000000] by simp
  ultimately show ?thesis by blast
qed

end
